theory Spec2Isabelle
  imports Main "HOL-Library.Sublist"
begin

section \<open>Strings of the program\<close>

text \<open>
  Python strings are modelled as \<^typ>\<open>string\<close>: the bytes of the text in UTF-8. The
  literals the program searches for are ASCII, so the functions of this section behave
  on the bytes exactly as the Python functions behave on the decoded text; only
  absolute positions differ, and the program compares positions for equality alone.
  The white space that \<^verbatim>\<open>strip\<close> removes and the decimal digits in the names of the
  images are not ASCII alone; they are treated where these functions are defined.
\<close>

definition newline :: char where
  "newline = CHR 0x0A"

text \<open>
  \<^verbatim>\<open>str.replace(old, new)\<close>: the occurrences of \<open>old\<close> are replaced from left to
  right without overlap. For the empty \<open>old\<close> Python puts \<open>new\<close> before every character
  and at the end.
\<close>

function replace :: "string \<Rightarrow> string \<Rightarrow> string \<Rightarrow> string" where
  "replace old new s =
     (if old = [] then new @ concat (map (\<lambda>c. c # new) s)
      else if s = [] then []
      else if prefix old s then new @ replace old new (drop (length old) s)
      else hd s # replace old new (tl s))"
  by pat_completeness auto
termination
  by (relation "measure (\<lambda>(old, new, s). length s)") (auto simp: neq_Nil_conv)

declare replace.simps [simp del]

text \<open>The substring test \<^verbatim>\<open>sub in s\<close>.\<close>

fun contains :: "string \<Rightarrow> string \<Rightarrow> bool" where
  "contains sub [] = (sub = [])"
| "contains sub (c # cs) = (prefix sub (c # cs) \<or> contains sub cs)"

section \<open>DiffRenderer: \<^verbatim>\<open>color_diffs\<close>\<close>

definition span_green :: string where
  "span_green = ''<span style='' @ [CHR 0x22] @ ''color:green'' @ [CHR 0x22] @ ''>''"

definition span_red :: string where
  "span_red = ''<span style='' @ [CHR 0x22] @ ''color:red'' @ [CHR 0x22] @ ''>''"

definition span_close :: string where
  "span_close = ''</span>''"

definition color_diffs :: "string \<Rightarrow> string" where
  "color_diffs difftext =
     replace ''-]'' span_close
       (replace ''[-'' span_red
         (replace ''+}'' span_close
           (replace ''{+'' span_green difftext)))"

section \<open>ModificationParser: \<^verbatim>\<open>modifications\<close>\<close>

text \<open>
  The regular expression \<^verbatim>\<open>(\[-(.*?)-\]|{\+(.*?)\+})\<close>. The lazy group \<^verbatim>\<open>(.*?)\<close>
  followed by a two-character closer takes the shortest run of characters other than the
  line feed after which the closer stands; \<open>lazy_until\<close> returns that run and the text
  after the closer, or \<open>None\<close> when a line feed or the end of the text comes first.
\<close>

fun lazy_until :: "string \<Rightarrow> string \<Rightarrow> (string \<times> string) option" where
  "lazy_until closer [] = (if closer = [] then Some ([], []) else None)"
| "lazy_until closer (c # cs) =
     (if prefix closer (c # cs) then Some ([], drop (length closer) (c # cs))
      else if c = newline then None
      else (case lazy_until closer cs of
              None \<Rightarrow> None
            | Some (body, rest) \<Rightarrow> Some (c # body, rest)))"

text \<open>
  A match object: \<open>m_start\<close> and \<open>m_end\<close> are \<^verbatim>\<open>mod.regs[0]\<close>, \<open>group2\<close> and
  \<open>group3\<close> are \<^verbatim>\<open>mod[2]\<close> and \<^verbatim>\<open>mod[3]\<close> (\<open>None\<close> for the alternative that did
  not take part).
\<close>

record rmatch =
  m_start :: nat
  m_end :: nat
  group2 :: "string option"
  group3 :: "string option"

text \<open>The attempt to match the expression at the head of the text: the groups and the rest.\<close>

definition match_here :: "string \<Rightarrow> (string option \<times> string option \<times> string) option" where
  "match_here s =
     (if prefix ''[-'' s then
        (case lazy_until ''-]'' (drop 2 s) of
           Some (body, rest) \<Rightarrow> Some (Some body, None, rest)
         | None \<Rightarrow> None)
      else if prefix ''{+'' s then
        (case lazy_until ''+}'' (drop 2 s) of
           Some (body, rest) \<Rightarrow> Some (None, Some body, rest)
         | None \<Rightarrow> None)
      else None)"

lemma lazy_until_length:
  "lazy_until closer s = Some (body, rest) \<Longrightarrow> length body + length closer + length rest = length s"
proof (induction s arbitrary: body rest)
  case Nil
  then show ?case by (simp split: if_splits)
next
  case (Cons c cs)
  show ?case
  proof (cases "prefix closer (c # cs)")
    case True
    with Cons.prems have "body = []" "rest = drop (length closer) (c # cs)" by simp_all
    moreover from True have "length closer \<le> length (c # cs)" by (rule prefix_length_le)
    ultimately show ?thesis by simp
  next
    case False
    with Cons.prems obtain b where b: "lazy_until closer cs = Some (b, rest)" "body = c # b"
      by (auto split: if_splits option.splits)
    from Cons.IH [OF b(1)] b(2) show ?thesis by simp
  qed
qed

lemma match_here_length:
  "match_here s = Some (g2, g3, rest) \<Longrightarrow> length rest + 4 \<le> length s"
  by (auto simp: match_here_def split: if_splits option.splits dest!: lazy_until_length)

text \<open>
  \<^verbatim>\<open>re.finditer\<close>: the matches from left to right; after a match the scan goes on at
  its end, after a failure one character further. \<open>pos\<close> is the offset of \<open>s\<close> in the
  whole text.
\<close>

function finditer_from :: "nat \<Rightarrow> string \<Rightarrow> rmatch list" where
  "finditer_from pos s =
     (if s = [] then []
      else (case match_here s of
              Some (g2, g3, rest) \<Rightarrow>
                \<lparr>m_start = pos, m_end = pos + (length s - length rest), group2 = g2, group3 = g3\<rparr>
                  # finditer_from (pos + (length s - length rest)) rest
            | None \<Rightarrow> finditer_from (Suc pos) (tl s)))"
  by pat_completeness auto
termination
  by (relation "measure (\<lambda>(pos, s). length s)")
     (auto simp: neq_Nil_conv dest!: match_here_length)

declare finditer_from.simps [simp del]

definition finditer :: "string \<Rightarrow> rmatch list" where
  "finditer difftext = finditer_from 0 difftext"

text \<open>
  The loop of \<^verbatim>\<open>modifications\<close>. A unit \<^verbatim>\<open>[sub, add]\<close> is a pair. The loop
  state is \<^verbatim>\<open>mods\<close> and \<^verbatim>\<open>last_pos\<close>; \<open>mods_step\<close> is one pass through the body
  (the \<^verbatim>\<open>continue\<close> leaves \<^verbatim>\<open>last_pos\<close> as it was). The last unit is read and
  written only behind the test that \<^verbatim>\<open>mods\<close> is not empty.
\<close>

type_synonym unit_pair = "string \<times> string"

definition or_empty :: "string option \<Rightarrow> string" where
  "or_empty g = (case g of None \<Rightarrow> [] | Some t \<Rightarrow> t)"

definition mods_step :: "rmatch \<Rightarrow> unit_pair list \<times> nat \<Rightarrow> unit_pair list \<times> nat" where
  "mods_step m st =
     (let mods = fst st; last_pos = snd st;
          sub = or_empty (group2 m); add = or_empty (group3 m) in
      if add \<noteq> [] \<and> length mods > 0 \<and> last_pos = m_start m
         \<and> snd (mods ! (length mods - 1)) = []
      then (mods[length mods - 1 := (fst (mods ! (length mods - 1)), add)], last_pos)
      else (mods @ [(sub, add)], m_end m))"

fun mods_loop :: "rmatch list \<Rightarrow> unit_pair list \<times> nat \<Rightarrow> unit_pair list \<times> nat" where
  "mods_loop [] st = st"
| "mods_loop (m # ms) st = mods_loop ms (mods_step m st)"

definition modifications :: "string \<Rightarrow> unit_pair list" where
  "modifications difftext = fst (mods_loop (finditer difftext) ([], 1))"

section \<open>The stored lists: \<^verbatim>\<open>pop_idx\<close>\<close>

datatype py_error = IndexError | KeyError | AttributeError | UnicodeDecodeError
  | RecursionError | ValueError | TypeError | OtherError

text \<open>
  \<^verbatim>\<open>list.pop(i)\<close> with Python's index rule: a negative index counts from the end, and
  an index outside the list raises.
\<close>

definition list_pop :: "'a list \<Rightarrow> int \<Rightarrow> py_error + 'a list" where
  "list_pop xs i =
     (let n = int (length xs); j = (if i < 0 then n + i else i) in
      if 0 \<le> j \<and> j < n then Inr (take (nat j) xs @ drop (Suc (nat j)) xs)
      else Inl IndexError)"

definition pop_idx :: "'a list \<Rightarrow> int \<Rightarrow> py_error + 'a list" where
  "pop_idx l popidx = (if int (length l) > popidx then list_pop l popidx else Inr l)"

section \<open>Well-formed word-diff text and balanced markup\<close>

text \<open>
  The docstring of \<^verbatim>\<open>color_diffs\<close> describes its input: compared text in which the
  differences are marked \<^verbatim>\<open>{+ ADD +}\<close> and \<^verbatim>\<open>[- DEL -]\<close>. Such a text is a sequence
  of pieces: plain runs, insertions and deletions. \<open>fmt\<close> writes a sequence out with given
  delimiters; \<open>word_diff_text\<close> uses the markers of the diff, \<open>rendered\<close> the wrappers
  of the page. A sequence is \<open>well_marked\<close> when no piece's text holds a brace, a bracket
  or \<open><\<close>.
\<close>

datatype piece = Plain string | Ins string | Del string

fun piece_text :: "piece \<Rightarrow> string" where
  "piece_text (Plain t) = t"
| "piece_text (Ins t) = t"
| "piece_text (Del t) = t"

fun fmt_piece :: "string \<Rightarrow> string \<Rightarrow> string \<Rightarrow> string \<Rightarrow> piece \<Rightarrow> string" where
  "fmt_piece io ic do dc (Plain t) = t"
| "fmt_piece io ic do dc (Ins t) = io @ t @ ic"
| "fmt_piece io ic do dc (Del t) = do @ t @ dc"

definition fmt :: "string \<Rightarrow> string \<Rightarrow> string \<Rightarrow> string \<Rightarrow> piece list \<Rightarrow> string" where
  "fmt io ic do dc ps = concat (map (fmt_piece io ic do dc) ps)"

definition word_diff_text :: "piece list \<Rightarrow> string" where
  "word_diff_text ps = fmt ''{+'' ''+}'' ''[-'' ''-]'' ps"

definition rendered :: "piece list \<Rightarrow> string" where
  "rendered ps = fmt span_green span_close span_red span_close ps"

definition marker_chars :: "char set" where
  "marker_chars = {CHR ''{'', CHR ''}'', CHR ''['', CHR '']'', CHR ''<''}"

definition well_marked :: "piece list \<Rightarrow> bool" where
  "well_marked ps = (\<forall>p \<in> set ps. set (piece_text p) \<inter> marker_chars = {})"

text \<open>
  A markup text is balanced when, read from left to right, every closing wrapper closes an
  open one and none stays open at the end. \<open>depth\<close> counts the open wrappers.
\<close>

function balanced_from :: "nat \<Rightarrow> string \<Rightarrow> bool" where
  "balanced_from depth s =
     (if s = [] then depth = 0
      else if prefix span_green s then balanced_from (Suc depth) (drop (length span_green) s)
      else if prefix span_red s then balanced_from (Suc depth) (drop (length span_red) s)
      else if prefix span_close s then
        (depth > 0 \<and> balanced_from (depth - 1) (drop (length span_close) s))
      else balanced_from depth (tl s))"
  by pat_completeness auto
termination
  by (relation "measure (\<lambda>(d, s). length s)")
     (auto simp: neq_Nil_conv span_green_def span_red_def span_close_def)

declare balanced_from.simps [simp del]

definition wrappers_balanced :: "string \<Rightarrow> bool" where
  "wrappers_balanced s = balanced_from 0 s"

text \<open>A unit with at least one side that is not empty.\<close>

definition nonempty_side :: "unit_pair \<Rightarrow> bool" where
  "nonempty_side u = (fst u \<noteq> [] \<or> snd u \<noteq> [])"

section \<open>More string functions of Python\<close>

text \<open>
  \<^verbatim>\<open>str.split(sep)\<close> for a separator that is not empty (Python raises for the empty one,
  and the program only splits at literals): the pieces between the occurrences of
  \<open>sep\<close>, found from left to right without overlap. \<open>acc\<close> is the piece being read.
\<close>

function split_go :: "string \<Rightarrow> string \<Rightarrow> string \<Rightarrow> string list" where
  "split_go sep acc s =
     (if s = [] then [acc]
      else if sep \<noteq> [] \<and> prefix sep s then acc # split_go sep [] (drop (length sep) s)
      else split_go sep (acc @ [hd s]) (tl s))"
  by pat_completeness auto
termination
  by (relation "measure (\<lambda>(sep, acc, s). length s)") (auto simp: neq_Nil_conv)

declare split_go.simps [simp del]

definition split_on :: "string \<Rightarrow> string \<Rightarrow> string list" where
  "split_on sep s = split_go sep [] s"

text \<open>
  \<^verbatim>\<open>str.strip()\<close> removes the white space of Python at both ends: the code points
  \<open>U+0009\<close> to \<open>U+000D\<close>, \<open>U+001C\<close> to \<open>U+0020\<close>, \<open>U+0085\<close>, \<open>U+00A0\<close>, \<open>U+1680\<close>,
  \<open>U+2000\<close> to \<open>U+200A\<close>, \<open>U+2028\<close>, \<open>U+2029\<close>, \<open>U+202F\<close>, \<open>U+205F\<close> and \<open>U+3000\<close>.
  \<open>white_space\<close> lists their UTF-8 encodings. In a UTF-8 text an encoding that stands
  at the start or at the end is a code point of the text, so \<open>strip\<close> takes the
  encodings off the two ends until none is left.
\<close>

definition white_space :: "string list" where
  "white_space =
     map (\<lambda>n. [char_of n]) [9, 10, 11, 12, 13, 28, 29, 30, 31, 32 :: nat]
     @ [[CHR 0xC2, CHR 0x85], [CHR 0xC2, CHR 0xA0], [CHR 0xE1, CHR 0x9A, CHR 0x80]]
     @ map (\<lambda>n. [CHR 0xE2, CHR 0x80, char_of n]) [128 ..< 139 :: nat]
     @ [[CHR 0xE2, CHR 0x80, CHR 0xA8], [CHR 0xE2, CHR 0x80, CHR 0xA9],
        [CHR 0xE2, CHR 0x80, CHR 0xAF], [CHR 0xE2, CHR 0x81, CHR 0x9F],
        [CHR 0xE3, CHR 0x80, CHR 0x80]]"

function strip_left :: "string list \<Rightarrow> string \<Rightarrow> string" where
  "strip_left codes s =
     (case find (\<lambda>c. c \<noteq> [] \<and> prefix c s) codes of
        None \<Rightarrow> s
      | Some c \<Rightarrow> strip_left codes (drop (length c) s))"
  by pat_completeness auto
termination
  by (relation "measure (\<lambda>(codes, s). length s)")
     (auto simp: find_Some_iff prefix_def)

declare strip_left.simps [simp del]

definition strip :: "string \<Rightarrow> string" where
  "strip s = rev (strip_left (map rev white_space) (rev (strip_left white_space s)))"

text \<open>\<^verbatim>\<open>str.lstrip(" ")\<close> removes the blanks at the start.\<close>

definition lstrip_blank :: "string \<Rightarrow> string" where
  "lstrip_blank s = dropWhile (\<lambda>c. c = CHR '' '') s"

text \<open>\<^verbatim>\<open>sep.join(xs)\<close>.\<close>

fun join :: "string \<Rightarrow> string list \<Rightarrow> string" where
  "join sep [] = []"
| "join sep [x] = x"
| "join sep (x # y # ys) = x @ sep @ join sep (y # ys)"

text \<open>
  \<^verbatim>\<open>str(n)\<close> of an integer, as the f-strings write it, and the format \<^verbatim>\<open>0{width}d\<close>:
  the digits are filled with zeros up to the width, which counts the sign.
\<close>

function str_nat :: "nat \<Rightarrow> string" where
  "str_nat n =
     (if n < 10 then [char_of (48 + n)] else str_nat (n div 10) @ [char_of (48 + n mod 10)])"
  by pat_completeness auto
termination
  by (relation "measure id") auto

declare str_nat.simps [simp del]

definition str_int :: "int \<Rightarrow> string" where
  "str_int i = (if i < 0 then CHR ''-'' # str_nat (nat (- i)) else str_nat (nat i))"

definition zero_padded :: "int \<Rightarrow> nat \<Rightarrow> string" where
  "zero_padded n width =
     (if n < 0
      then CHR ''-'' # replicate (width - 1 - length (str_nat (nat (- n)))) CHR ''0''
             @ str_nat (nat (- n))
      else replicate (width - length (str_nat (nat n))) CHR ''0'' @ str_nat (nat n))"

text \<open>
  The slices \<^verbatim>\<open>xs[k:]\<close> and \<^verbatim>\<open>xs[:k]\<close>: a negative bound counts from the end of the
  list.
\<close>

definition slice_from :: "int \<Rightarrow> 'a list \<Rightarrow> 'a list" where
  "slice_from k xs = (if k < 0 then drop (nat (int (length xs) + k)) xs else drop (nat k) xs)"

definition slice_to :: "int \<Rightarrow> 'a list \<Rightarrow> 'a list" where
  "slice_to k xs = (if k < 0 then take (nat (int (length xs) + k)) xs else take (nat k) xs)"

text \<open>Errors are threaded through the calls: the first error ends the request.\<close>

definition bind :: "py_error + 'a \<Rightarrow> ('a \<Rightarrow> py_error + 'b) \<Rightarrow> py_error + 'b" where
  "bind r f = (case r of Inl e \<Rightarrow> Inl e | Inr x \<Rightarrow> f x)"

text \<open>\<^verbatim>\<open>session[k]\<close> for a key that may be missing.\<close>

definition key :: "'a option \<Rightarrow> py_error + 'a" where
  "key v = (case v of None \<Rightarrow> Inl KeyError | Some x \<Rightarrow> Inr x)"

section \<open>Paths\<close>

text \<open>
  Paths are the strings of \<^verbatim>\<open>pathlib\<close> in its normal form, with \<open>/\<close> between the
  components; the folders of the program are absolute. \<open>path_name\<close> and \<open>path_parent\<close>
  are \<^verbatim>\<open>.name\<close> and \<^verbatim>\<open>.parent\<close>, \<open>joinpath\<close> appends a relative path, \<open>relative_to\<close>
  raises \<^verbatim>\<open>ValueError\<close> when the path is not below the base, and \<open>symlink_path\<close> is
  \<^verbatim>\<open>Path("./symlink/").joinpath(rel)\<close>.
\<close>

definition path_name :: "string \<Rightarrow> string" where
  "path_name p = rev (takeWhile (\<lambda>c. c \<noteq> CHR ''/'') (rev p))"

definition path_parent :: "string \<Rightarrow> string" where
  "path_parent p =
     (if CHR ''/'' \<notin> set p then ''.''
      else (let d = rev (drop 1 (dropWhile (\<lambda>c. c \<noteq> CHR ''/'') (rev p)))
            in if d = [] then ''/'' else d))"

definition joinpath :: "string \<Rightarrow> string \<Rightarrow> string" where
  "joinpath dir p = dir @ ''/'' @ p"

definition relative_to :: "string \<Rightarrow> string \<Rightarrow> py_error + string" where
  "relative_to base p =
     (if p = base then Inr ''.''
      else if base = ''/'' \<and> prefix ''/'' p then Inr (drop 1 p)
      else if prefix (base @ ''/'') p then Inr (drop (length base + 1) p)
      else Inl ValueError)"

definition symlink_path :: "string \<Rightarrow> string" where
  "symlink_path rel = (if rel = ''.'' then ''symlink'' else ''symlink/'' @ rel)"

definition str_path :: "string option \<Rightarrow> string" where
  "str_path p = (case p of None \<Rightarrow> ''None'' | Some t \<Rightarrow> t)"

section \<open>The repository and the session\<close>

text \<open>
  The reservation of the repository, as \<^verbatim>\<open>gtcheckinit\<close> writes it and puts it into the
  session; of its keys the two requests use these three.
\<close>

record reservation =
  Repo :: string
  Dateien_bearbeitet :: int
  Dateien_gesamt :: int

text \<open>
  What the program does to the repository, the working tree, the reservation store and
  the log is recorded as a list of effects, in the order of the calls.
\<close>

datatype effect =
    GitAdd string
  | GitCommit string
  | GitReset string
  | GitRm string
  | GitCheckout string
  | WriteFile string string
  | SetConfig string string
  | WriteReservation reservation
  | Symlink string string
  | LogWarning string
  | LogInfo string

text \<open>
  An entry of \<^verbatim>\<open>repo.index.diff(None, ...)\<close>. A blob is the text of its data when the
  bytes decode as UTF-8 and \<open>None\<close> when they do not; the same for \<open>diff\<close>, the bytes
  of the patch.
\<close>

type_synonym blob = "string option"

record item =
  a_path :: string
  b_path :: "string option"
  a_blob :: "blob option"
  b_blob :: "blob option"
  deleted_file :: bool
  new_file :: bool
  diff :: "string option"

text \<open>
  What the repository, the file system and the runtime answer. The answers may depend
  on everything the program has done so far, so a \<open>world\<close> maps the effects so far to
  the answers. The queries of the repository are taken to return: the repository is
  there, and its configuration holds the name and the address, which \<^verbatim>\<open>gtcheckinit\<close>
  and \<^verbatim>\<open>gtcheckedit\<close> write before \<^verbatim>\<open>gtcheck\<close> reads them. The reads that depend on
  the content of a file or of a blob have an answer for their failure:
  \<^item> \<open>config_name\<close> and \<open>config_email\<close>: the identity of the repository;
  \<^item> \<open>shortstat\<close>: the output of \<^verbatim>\<open>git diff --cached --shortstat\<close>;
  \<^item> \<open>changed_paths\<close>: the \<^verbatim>\<open>a_path\<close>s of \<^verbatim>\<open>repo.index.diff(None)\<close>;
  \<^item> \<open>diff_patch\<close> and \<open>diff_plain\<close>: the two queries for one path;
  \<^item> \<open>read_file\<close>: the text of a file, \<open>None\<close> when it cannot be read;
  \<^item> \<open>word_diff_objects\<close>: the word diff of two hashed texts, \<open>None\<close> when a command
    fails;
  \<^item> \<open>path_exists\<close>: \<^verbatim>\<open>Path.exists\<close>;
  \<^item> \<open>glob_files\<close>: the paths a pattern finds in a directory;
  \<^item> \<open>image_type\<close>: whether \<^verbatim>\<open>imghdr.what\<close> knows the file as an image, \<open>None\<close> when it
    raises;
  \<^item> \<open>digit_at\<close>: the table of the decimal digits of Unicode, which \<^verbatim>\<open>\d\<close> and
    \<^verbatim>\<open>int\<close> use: the value of the digit that a text starts with and the text after it;
  \<^item> \<open>raises\<close>: whether a call that changes the repository or a file would raise now.
\<close>

record view =
  config_name :: string
  config_email :: string
  shortstat :: string
  changed_paths :: "string list"
  diff_patch :: "string option \<Rightarrow> item list"
  diff_plain :: "string option \<Rightarrow> item list"
  read_file :: "string \<Rightarrow> string option"
  word_diff_objects :: "string \<Rightarrow> string \<Rightarrow> string option"
  path_exists :: "string \<Rightarrow> bool"
  glob_files :: "string \<Rightarrow> string \<Rightarrow> string list"
  image_type :: "string \<Rightarrow> bool option"
  digit_at :: "string \<Rightarrow> (nat \<times> string) option"
  raises :: "effect \<Rightarrow> bool"

type_synonym world = "effect list \<Rightarrow> view"

text \<open>
  A call that changes the repository or a file: it raises when the world says so, and
  always when it is given an empty path (\<^verbatim>\<open>git\<close> refuses the empty pathspec,
  \<^verbatim>\<open>open('', 'w')\<close> raises); otherwise it is recorded. \<open>perform_all\<close> makes the calls
  of a list in order.
\<close>

definition empty_target :: "effect \<Rightarrow> bool" where
  "empty_target e =
     (case e of
        GitAdd p \<Rightarrow> p = []
      | GitReset p \<Rightarrow> p = []
      | GitRm p \<Rightarrow> p = []
      | GitCheckout p \<Rightarrow> p = []
      | WriteFile p c \<Rightarrow> p = []
      | _ \<Rightarrow> False)"

definition perform :: "world \<Rightarrow> effect \<Rightarrow> effect list \<Rightarrow> py_error + effect list" where
  "perform w e log =
     (if raises (w log) e \<or> empty_target e then Inl OtherError else Inr (log @ [e]))"

fun perform_all :: "world \<Rightarrow> effect list \<Rightarrow> effect list \<Rightarrow> py_error + effect list" where
  "perform_all w [] log = Inr log"
| "perform_all w (e # es) log = bind (perform w e log) (perform_all w es)"

text \<open>
  The session dictionary. \<^verbatim>\<open>gtcheckinit\<close> sets the first eight keys; the other keys are
  set later or never, and reading a missing key raises \<^verbatim>\<open>KeyError\<close>. An entry of
  \<^verbatim>\<open>difflist\<close> is a path or \<^verbatim>\<open>None\<close>.
\<close>

record session =
  folder :: string
  skip :: int
  difflist :: "string option list"
  difflen :: int
  reservefile :: reservation
  vkeylang :: string
  undo_fpath :: string
  undo_value :: string
  modtype :: "string option"
  modtext :: "string option"
  fname :: "string option"
  fpath :: "string option"
  fileidx :: "int option"
  skipcc :: "bool option"
  addcc :: "bool option"

definition init_session :: "string \<Rightarrow> reservation \<Rightarrow> session" where
  "init_session dir rf =
     \<lparr>folder = dir, skip = 0, difflist = [], difflen = 0, reservefile = rf, vkeylang = [],
      undo_fpath = [], undo_value = [], modtype = None, modtext = None, fname = None,
      fpath = None, fileidx = None, skipcc = None, addcc = None\<rparr>"

section \<open>DiffExtractor: \<^verbatim>\<open>get_gitdifftext\<close> and \<^verbatim>\<open>get_difftext\<close>\<close>

definition get_gitdifftext :: "view \<Rightarrow> string \<Rightarrow> string \<Rightarrow> py_error + string" where
  "get_gitdifftext v orig modified =
     (case word_diff_objects v orig modified of
        None \<Rightarrow> Inl OtherError
      | Some out \<Rightarrow> Inr (strip (last (split_on ''@@'' out))))"

definition conflict_head :: string where
  "conflict_head = ''<<<<<<< HEAD'' @ [newline]"

text \<open>
  \<^verbatim>\<open>get_difftext\<close> returns the diff text and the warnings it logged (each with the path
  of the file). The fallback of the inner \<^verbatim>\<open>try\<close> fails when the blob of the working
  side is missing, when its bytes do not decode, or when the comparison fails.
\<close>

definition fallback_difftext :: "view \<Rightarrow> string \<Rightarrow> item \<Rightarrow> py_error + string" where
  "fallback_difftext v origtext it =
     (case b_blob it of
        None \<Rightarrow> Inl AttributeError
      | Some None \<Rightarrow> Inl UnicodeDecodeError
      | Some (Some t) \<Rightarrow> get_gitdifftext v origtext t)"

definition get_difftext ::
  "view \<Rightarrow> string \<Rightarrow> item \<Rightarrow> string \<Rightarrow> py_error + (string \<times> effect list)" where
  "get_difftext v origtext it dir =
     (if contains conflict_head origtext then
        (case read_file v (joinpath dir (a_path it)) of
           None \<Rightarrow> Inl OtherError
         | Some content \<Rightarrow>
             (let mergetext =
                    split_on ([newline] @ ''=======''  @ [newline])
                      (hd (split_on ([newline] @ ''>>>>>>>'')
                        (last (split_on conflict_head content))))
              in if length mergetext < 2 then Inl IndexError
                 else bind (get_gitdifftext v (mergetext ! 0) (mergetext ! 1))
                        (\<lambda>difftext. Inr (difftext, []))))
      else
        (case diff it of
           Some d \<Rightarrow> Inr (concat (tl (split_on [newline] d)), [])
         | None \<Rightarrow>
             (case fallback_difftext v origtext it of
                Inr difftext \<Rightarrow> Inr (difftext, [LogWarning (a_path it)])
              | Inl ex2 \<Rightarrow> Inr ([], [LogWarning (a_path it), LogWarning (a_path it)]))))"

section \<open>ImageContextResolver: \<^verbatim>\<open>surrounding_images\<close>\<close>

text \<open>
  The expression \<^verbatim>\<open>^(.*?)(\d+)(\D*)$\<close> on the name of the image. \<open>read_digits\<close> reads the
  longest run of digits at the start of a text, \<open>has_digit\<close> says whether a digit
  stands anywhere in it. The match puts into the first group the shortest text without
  line feed after which a run of digits and then no further digit follows; there is no
  match when a line feed comes before that or the name holds no digit.
\<close>

function read_digits :: "(string \<Rightarrow> (nat \<times> string) option) \<Rightarrow> string \<Rightarrow> nat list \<times> string" where
  "read_digits table s =
     (case table s of
        None \<Rightarrow> ([], s)
      | Some (d, rest) \<Rightarrow>
          if length rest < length s
          then (case read_digits table rest of (ds, r) \<Rightarrow> (d # ds, r))
          else ([], s))"
  by pat_completeness auto
termination
  by (relation "measure (\<lambda>(table, s). length s)") auto

declare read_digits.simps [simp del]

fun has_digit :: "(string \<Rightarrow> (nat \<times> string) option) \<Rightarrow> string \<Rightarrow> bool" where
  "has_digit table [] = False"
| "has_digit table (c # cs) = (fst (read_digits table (c # cs)) \<noteq> [] \<or> has_digit table cs)"

fun number_split ::
  "(string \<Rightarrow> (nat \<times> string) option) \<Rightarrow> string \<Rightarrow> string
     \<Rightarrow> (string \<times> nat list \<times> string) option" where
  "number_split table pre [] = None"
| "number_split table pre (c # cs) =
     (case read_digits table (c # cs) of (ds, rest) \<Rightarrow>
        if ds \<noteq> [] \<and> \<not> has_digit table rest then Some (pre, ds, rest)
        else if c = newline then None
        else number_split table (pre @ [c]) cs)"

definition digits_value :: "nat list \<Rightarrow> int" where
  "digits_value ds = int (foldl (\<lambda>a d. 10 * a + d) 0 ds)"

text \<open>
  One neighbour of the image: the path with the number replaced, and what the template
  gets for it: the path below \<^verbatim>\<open>symlink\<close> when the file is there, else the empty text
  and an entry in the log.
\<close>

definition neighbour ::
  "world \<Rightarrow> string \<Rightarrow> string \<Rightarrow> effect list \<Rightarrow> py_error + (string \<times> effect list)" where
  "neighbour w dir path log =
     (if path_exists (w log) path
      then bind (relative_to (path_parent dir) path) (\<lambda>rel. Inr (symlink_path rel, log))
      else Inr ([], log @ [LogInfo (path_name path)]))"

definition surrounding_images ::
  "world \<Rightarrow> string \<Rightarrow> string \<Rightarrow> effect list \<Rightarrow> py_error + (string \<times> string \<times> effect list)" where
  "surrounding_images w img dir log =
     (case number_split (digit_at (w log)) [] (path_name img) of
        None \<Rightarrow> Inl TypeError
      | Some (imgprefix, ds, imgpostfix) \<Rightarrow>
          (let imgint = digits_value ds;
               width = length ds;
               prev_img = joinpath (path_parent img)
                            (imgprefix @ zero_padded (imgint - 1) width @ imgpostfix);
               post_img = joinpath (path_parent img)
                            (imgprefix @ zero_padded (imgint + 1) width @ imgpostfix)
           in bind (neighbour w dir prev_img log) (\<lambda>(prev, log1).
              bind (neighbour w dir post_img log1) (\<lambda>(post, log2).
                Inr (prev, post, log2)))))"

section \<open>ReviewSession: \<^verbatim>\<open>gtcheck\<close>\<close>

text \<open>
  The pages \<^verbatim>\<open>gtcheck\<close> renders, with the arguments of the templates (the name of the
  repository in the address and the fixed list of keys are left out). The three
  arguments for the images are given only when an image was found.
\<close>

record review_args =
  arg_files_len :: int
  arg_name :: string
  arg_email :: string
  arg_commitmsg :: string
  arg_image :: "string option"
  arg_previmage :: "string option"
  arg_postimage :: "string option"
  arg_difftext :: string
  arg_origtext :: string
  arg_modtext :: string
  arg_files_left :: string
  arg_iname :: string
  arg_fname :: string
  arg_skipped :: int
  arg_vkeylang :: string

datatype page =
    ReviewPage review_args
  | SkippedPage string string string string
  | NoFilePage

text \<open>
  What \<^verbatim>\<open>gtcheck\<close> reads before the loop (lines 146 to 150): the name, with its
  default, the address, and the first token of the staged summary,
  \<^verbatim>\<open>.strip().split(" ")[0]\<close>.
\<close>

record head =
  head_name :: string
  head_email :: string
  head_diff :: string

definition read_head :: "view \<Rightarrow> head" where
  "read_head v =
     \<lparr>head_name = (if config_name v = [] then ''GTChecker'' else config_name v),
      head_email = config_email v,
      head_diff = hd (split_on '' '' (strip (shortstat v)))\<rparr>"

definition new_message :: string where
  "new_message = ''<span style='' @ [CHR 0x27] @ ''color:green'' @ [CHR 0x27]
     @ ''>This untracked file gets added when committed and deleted when stashed!</span>''"

definition del_message :: string where
  "del_message = ''<span style='' @ [CHR 0x27] @ ''color:red'' @ [CHR 0x27]
     @ ''>This file gets deleted when committed and restored when stashed!</span>''"

definition file_commitmsg :: "string \<Rightarrow> unit_pair list \<Rightarrow> string" where
  "file_commitmsg path mods =
     ''[GT Checked]  '' @ path @ '': '' @ join '', '' (map (\<lambda>(orig, md). orig @ '' -> '' @ md) mods)"

definition staged_commitmsg :: "string \<Rightarrow> string" where
  "staged_commitmsg n = ''[GT Checked] Staged Files: '' @ n"

definition skipped_text :: "int \<Rightarrow> string" where
  "skipped_text n = ''Du hast '' @ str_int n @ '' Dateien '' @ [CHR 0xC3, CHR 0xBC]
     @ ''bersprungen!.''"

text \<open>
  The entry for one file: the query with the patch, and the plain query (whose first
  element is taken, \<^verbatim>\<open>IndexError\<close> when there is none) when the first is empty.
\<close>

definition lookup_item :: "view \<Rightarrow> string option \<Rightarrow> py_error + item" where
  "lookup_item v filename =
     (case diff_patch v filename of
        it # _ \<Rightarrow> Inr it
      | [] \<Rightarrow> (case diff_plain v filename of it # _ \<Rightarrow> Inr it | [] \<Rightarrow> Inl IndexError))"

text \<open>\<^verbatim>\<open>item.a_blob.data_stream.read().decode('utf-8').lstrip(" ")\<close>.\<close>

definition read_origtext :: "item \<Rightarrow> py_error + string" where
  "read_origtext it =
     (case a_blob it of
        None \<Rightarrow> Inl AttributeError
      | Some None \<Rightarrow> Inl UnicodeDecodeError
      | Some (Some t) \<Rightarrow> Inr (lstrip_blank t))"

definition truthy_path :: "string option \<Rightarrow> bool" where
  "truthy_path p = (case p of None \<Rightarrow> False | Some t \<Rightarrow> t \<noteq> [])"

text \<open>
  The chain that fixes the modification type, the working text and the text shown for
  the diff (lines 172 to 188). \<open>mergetext\<close> is the local list of \<^verbatim>\<open>gtcheck\<close>; the
  result is the session, the working text and the coloured diff.
\<close>

definition classify ::
  "view \<Rightarrow> item \<Rightarrow> string list \<Rightarrow> string \<Rightarrow> string \<Rightarrow> session
     \<Rightarrow> py_error + (session \<times> string \<times> string)" where
  "classify v it mergetext origtext diffcolored s =
     (let (s1, colored1) =
            (if (origtext = [] \<and> \<not> deleted_file it) \<or> new_file it
             then (s\<lparr>modtype := Some ''new''\<rparr>, new_message)
             else (s, diffcolored))
      in if deleted_file it \<or> \<not> truthy_path (b_path it) then
           Inr (s1\<lparr>modtype := Some ''del''\<rparr>, [], del_message)
         else if mergetext \<noteq> [] then
           (if length mergetext < 2 then Inl IndexError
            else Inr (s1\<lparr>modtype := Some ''merge''\<rparr>, mergetext ! 1, colored1))
         else
           (case read_file v (joinpath (folder s) (str_path (b_path it))) of
              None \<Rightarrow> Inl OtherError
            | Some t \<Rightarrow> Inr (s1, lstrip_blank t, colored1)))"

text \<open>
  The images for the page (lines 207 to 223). The link to the folder,
  \<^verbatim>\<open>static/symlink/\<close> with the name of the folder below the directory of the program
  (written here without that directory), is made when it is not there. The candidates
  are the files beside the text file whose names start like its name without
  \<^verbatim>\<open>gt.txt\<close>, and \<^verbatim>\<open>imghdr\<close> is asked about each of them in turn. The result is \<open>None\<close>
  when there is no image, else the image below \<^verbatim>\<open>symlink\<close>, its two neighbours and its
  name.
\<close>

fun probe_images :: "view \<Rightarrow> string list \<Rightarrow> py_error + string list" where
  "probe_images v [] = Inr []"
| "probe_images v (p # ps) =
     (case image_type v p of
        None \<Rightarrow> Inl OtherError
      | Some known \<Rightarrow> bind (probe_images v ps) (\<lambda>r. Inr (if known then p # r else r)))"

definition ensure_link :: "world \<Rightarrow> string \<Rightarrow> effect list \<Rightarrow> py_error + effect list" where
  "ensure_link w dir log =
     (let link = ''static/symlink/'' @ path_name dir in
      if path_exists (w log) link then Inr log else perform w (Symlink link dir) log)"

definition find_image :: "view \<Rightarrow> string \<Rightarrow> py_error + string option" where
  "find_image v path =
     bind (probe_images v
             (glob_files v (path_parent path) (replace ''gt.txt'' [] (path_name path) @ ''*'')))
       (\<lambda>inames. Inr (case inames of [] \<Rightarrow> None | img # _ \<Rightarrow> Some img))"

definition image_context ::
  "world \<Rightarrow> string \<Rightarrow> string \<Rightarrow> effect list
     \<Rightarrow> py_error + ((string \<times> string \<times> string \<times> string) option \<times> effect list)" where
  "image_context w dir path log =
     bind (ensure_link w dir log) (\<lambda>log1.
     bind (find_image (w log1) path) (\<lambda>found.
       case found of
         None \<Rightarrow> Inr (None, log1)
       | Some img \<Rightarrow>
           bind (relative_to (path_parent dir) img) (\<lambda>rel.
           bind (surrounding_images w img dir log1) (\<lambda>(prev, post, log2).
             Inr (Some (symlink_path rel, prev, post, path_name img), log2)))))"

text \<open>
  The end of the body (lines 197 to 231): the proposed commit message, the keys of the
  session for the file, the images and the page.
\<close>

datatype outcome =
    Continue session "effect list" int
  | Present page session "effect list"

definition present_file ::
  "world \<Rightarrow> head \<Rightarrow> item \<Rightarrow> string \<Rightarrow> string \<Rightarrow> string \<Rightarrow> string \<Rightarrow> int \<Rightarrow> int
     \<Rightarrow> session \<Rightarrow> effect list \<Rightarrow> py_error + outcome" where
  "present_file w h it origtext mtext difftext diffcolored fidx nextcounter s log =
     (let path = joinpath (folder s) (a_path it);
          mods = modifications difftext;
          commitmsg = (if head_diff h \<noteq> [] then staged_commitmsg (str_int (difflen s))
                       else file_commitmsg (a_path it) mods);
          s1 = s\<lparr>modtext := Some mtext, fname := Some path,
                 fpath := Some (a_path it), fileidx := Some (fidx - nextcounter)\<rparr>
      in bind (image_context w (folder s1) path log) (\<lambda>(images, log1).
           Inr (Present
                  (ReviewPage
                     \<lparr>arg_files_len = Dateien_gesamt (reservefile s1),
                      arg_name = head_name h, arg_email = head_email h,
                      arg_commitmsg = commitmsg,
                      arg_image = map_option (\<lambda>(shown, prev, post, iname). shown) images,
                      arg_previmage = map_option (\<lambda>(shown, prev, post, iname). prev) images,
                      arg_postimage = map_option (\<lambda>(shown, prev, post, iname). post) images,
                      arg_difftext = diffcolored, arg_origtext = origtext, arg_modtext = mtext,
                      arg_files_left = str_int (difflen s1 - skip s1),
                      arg_iname = (case images of None \<Rightarrow> ''No image''
                                   | Some (shown, prev, post, iname) \<Rightarrow> iname),
                      arg_fname = path_name path, arg_skipped = skip s1,
                      arg_vkeylang = vkeylang s1\<rparr>)
                  s1 log1)))"

text \<open>
  One pass through the body of the loop over the files: either the loop goes on
  (\<^verbatim>\<open>continue\<close>) with a new session, effect list and \<^verbatim>\<open>nextcounter\<close>, or the page for
  the file is returned. \<^verbatim>\<open>session['skipcc']\<close> is read only when the two stripped texts
  are equal, \<^verbatim>\<open>session['addcc']\<close> only when it is true.
\<close>

definition present_step ::
  "world \<Rightarrow> head \<Rightarrow> int \<Rightarrow> string option \<Rightarrow> int \<Rightarrow> session \<Rightarrow> effect list
     \<Rightarrow> py_error + outcome" where
  "present_step w h fidx filename nextcounter s log =
     bind (lookup_item (w log) filename) (\<lambda>it.
       if a_blob it = None \<and> b_blob it = None then
         bind (pop_idx (difflist s) (skip s + fidx)) (\<lambda>l.
           Inr (Continue (s\<lparr>difflist := l\<rparr>) log (nextcounter + 1)))
       else
         (let s1 = s\<lparr>modtype := Some ''mod''\<rparr>; mergetext = [] in
          bind (read_origtext it) (\<lambda>origtext.
          bind (get_difftext (w log) origtext it (folder s1)) (\<lambda>(difftext, warnings).
          let log1 = log @ warnings in
          bind (classify (w log1) it mergetext origtext (color_diffs difftext) s1)
            (\<lambda>(s2, mtext, diffcolored).
          bind (if strip origtext = strip mtext then key (skipcc s2) else Inr False)
            (\<lambda>clean_copy.
          if clean_copy then
            bind (key (addcc s2)) (\<lambda>stage.
              if stage then
                bind (pop_idx (difflist s2) (skip s2 + fidx)) (\<lambda>l.
                bind (perform w (GitAdd (str_path filename)) log1) (\<lambda>log2.
                  Inr (Continue (s2\<lparr>difflist := l\<rparr>) log2 (nextcounter + 1))))
              else Inr (Continue (s2\<lparr>skip := skip s2 + 1\<rparr>) log1 (nextcounter + 1)))
          else present_file w h it origtext mtext difftext diffcolored
                 fidx nextcounter s2 log1))))))"

text \<open>
  The loop \<^verbatim>\<open>for fileidx, filename in enumerate(difflist)\<close> over the local slice. The
  result holds the page when the loop returned one and \<open>None\<close> when it ran to its end
  (the \<^verbatim>\<open>else\<close> of the loop).
\<close>

fun present_loop ::
  "world \<Rightarrow> head \<Rightarrow> string option list \<Rightarrow> int \<Rightarrow> int \<Rightarrow> session \<Rightarrow> effect list
     \<Rightarrow> py_error + (page option \<times> session \<times> effect list)" where
  "present_loop w h [] fidx nextcounter s log = Inr (None, s, log)"
| "present_loop w h (filename # rest) fidx nextcounter s log =
     (case present_step w h fidx filename nextcounter s log of
        Inl e \<Rightarrow> Inl e
      | Inr (Continue s1 log1 nc1) \<Rightarrow> present_loop w h rest (fidx + 1) nc1 s1 log1
      | Inr (Present pg s1 log1) \<Rightarrow> Inr (Some pg, s1, log1))"

text \<open>The refill of the queue at the start of \<^verbatim>\<open>gtcheck\<close> (lines 153 to 159).\<close>

definition refill :: "view \<Rightarrow> session \<Rightarrow> session" where
  "refill v s =
     (if difflist s = [] \<or> int (length (difflist s)) \<le> skip s then
        (let dl = map Some (filter (contains ''.gt.txt'') (changed_paths v)) in
         if int (length dl) \<le> skip s then s\<lparr>difflist := replicate (nat (skip s)) None\<rparr>
         else s\<lparr>difflen := int (length dl), difflist := slice_to (skip s + 100) dl\<rparr>)
      else s)"

text \<open>
  \<^verbatim>\<open>gtcheck\<close> calls itself after it has set the cursor back to zero. The first argument
  bounds the depth of these calls, as the recursion limit of Python does; when it is
  used up the request ends with \<^verbatim>\<open>RecursionError\<close>.
\<close>

fun gtcheck ::
  "nat \<Rightarrow> world \<Rightarrow> session \<Rightarrow> effect list \<Rightarrow> py_error + (page \<times> session \<times> effect list)" where
  "gtcheck 0 w s log = Inl RecursionError"
| "gtcheck (Suc depth) w s log =
     (let h = read_head (w log);
          s1 = refill (w log) s
      in case present_loop w h (slice_from (skip s1) (difflist s1)) 0 0 s1 log of
           Inl e \<Rightarrow> Inl e
         | Inr (Some pg, s2, log2) \<Rightarrow> Inr (pg, s2, log2)
         | Inr (None, s2, log2) \<Rightarrow>
             if head_diff h \<noteq> [] then
               Inr (SkippedPage (head_name h) (head_email h)
                      (staged_commitmsg (head_diff h)) (skipped_text (skip s2)),
                    s2\<lparr>difflen := skip s2\<rparr>, log2)
             else if difflist s2 = [] then Inr (NoFilePage, s2, log2)
             else gtcheck depth w (s2\<lparr>skip := 0\<rparr>) log2)"

section \<open>ReviewSession: \<^verbatim>\<open>gtcheckedit\<close>\<close>

text \<open>
  The form of the review page. The fields read with \<^verbatim>\<open>data[...]\<close> are there in every
  submission of the page; the fields read with \<^verbatim>\<open>data.get\<close> may be missing.
\<close>

record form =
  form_selection :: string
  form_commitmsg :: string
  form_modtext :: string
  form_vkeylang :: string
  form_name :: "string option"
  form_email :: "string option"
  form_undo :: "string option"

definition crlf :: string where
  "crlf = [CHR 0x0D, newline]"

text \<open>The calls of an undo and of the update of the identity (lines 272 to 279).\<close>

definition undo_effects :: "session \<Rightarrow> effect list" where
  "undo_effects s = [GitReset (undo_fpath s), WriteFile (undo_fpath s) (undo_value s)]"

definition config_effects :: "form \<Rightarrow> effect list" where
  "config_effects data =
     [SetConfig ''name'' (case form_name data of None \<Rightarrow> ''GTChecker'' | Some n \<Rightarrow> n),
      SetConfig ''email'' (case form_email data of None \<Rightarrow> [] | Some e \<Rightarrow> e)]"

text \<open>
  The write of the submitted text (lines 285 to 287 and 306 to 308): the file is written
  when the text differs from the stored one or the type is \<^verbatim>\<open>merge\<close>; the type is read
  only when the texts are equal.
\<close>

definition write_back ::
  "world \<Rightarrow> string \<Rightarrow> string \<Rightarrow> string \<Rightarrow> session \<Rightarrow> effect list \<Rightarrow> py_error + effect list" where
  "write_back w path mtext stored s log =
     (if replace crlf [newline] stored \<noteq> mtext then perform w (WriteFile path mtext) log
      else bind (key (modtype s)) (\<lambda>mt.
             if mt = ''merge'' then perform w (WriteFile path mtext) log else Inr log))"

text \<open>The last statement before \<^verbatim>\<open>gtcheck\<close>: \<^verbatim>\<open>pop_idx('difflist', skip + fileidx)\<close>.\<close>

definition pop_current :: "session \<Rightarrow> effect list \<Rightarrow> py_error + (session \<times> effect list)" where
  "pop_current s log =
     bind (key (fileidx s)) (\<lambda>fi.
     bind (pop_idx (difflist s) (skip s + fi)) (\<lambda>l.
       Inr (s\<lparr>difflist := l\<rparr>, log)))"

text \<open>
  \<open>edit_decision\<close> is \<^verbatim>\<open>gtcheckedit\<close> from line 270 up to the call of \<^verbatim>\<open>gtcheck\<close> that
  ends every path.
\<close>

definition edit_decision ::
  "world \<Rightarrow> form \<Rightarrow> session \<Rightarrow> effect list \<Rightarrow> py_error + (session \<times> effect list)" where
  "edit_decision w data s log =
     bind (key (fpath s)) (\<lambda>fp.
     let path = joinpath (folder s) fp in
     bind (perform_all w (config_effects data) log) (\<lambda>log1.
     let mtext = replace crlf [newline] (form_modtext data);
         s1 = s\<lparr>vkeylang := form_vkeylang data\<rparr> in
     bind (if truthy_path (form_undo data)
           then bind (perform_all w (undo_effects s1) log1) (\<lambda>l.
                  Inr (s1\<lparr>difflen := difflen s1 + 1\<rparr>, l))
           else Inr (s1, log1)) (\<lambda>(s2, log2).
     bind (key (modtext s2)) (\<lambda>stored.
     let s3 = s2\<lparr>undo_fpath := path, undo_value := stored\<rparr> in
     if form_selection data = ''commit'' then
       bind (if difflen s3 - skip s3 \<noteq> 0 then
               bind (write_back w path mtext stored s3 log2) (\<lambda>log3.
               bind (perform w (GitAdd path) log3) (\<lambda>log4.
               let rf = (reservefile s3)\<lparr>Dateien_bearbeitet :=
                            Dateien_gesamt (reservefile s3) - difflen s3\<rparr> in
               bind (perform w (WriteReservation rf) log4) (\<lambda>log5.
                 Inr (s3\<lparr>reservefile := rf\<rparr>, log5))))
             else Inr (s3, log2))
         (\<lambda>(s4, log4).
       bind (perform w (GitCommit (form_commitmsg data)) log4) (\<lambda>log5.
         pop_current (s4\<lparr>difflist := [], difflen := difflen s4 - 1\<rparr>) log5))
     else if form_selection data = ''stash'' then
       bind (key (modtype s3)) (\<lambda>mt.
       bind (perform w (if mt = ''new'' then GitRm path else GitCheckout path) log2) (\<lambda>log3.
       let rf = (reservefile s3)\<lparr>Dateien_gesamt := Dateien_gesamt (reservefile s3) - 1\<rparr> in
       bind (perform w (WriteReservation rf) log3) (\<lambda>log4.
         pop_current (s3\<lparr>reservefile := rf\<rparr>) log4)))
     else if form_selection data = ''add'' then
       bind (write_back w path mtext stored s3 log2) (\<lambda>log3.
       bind (perform w (GitAdd path) log3) (\<lambda>log4.
         pop_current (s3\<lparr>difflen := difflen s3 - 1\<rparr>) log4))
     else Inr (s3\<lparr>skip := skip s3 + 1\<rparr>, log2)))))"

definition gtcheckedit ::
  "nat \<Rightarrow> world \<Rightarrow> form \<Rightarrow> session \<Rightarrow> effect list
     \<Rightarrow> py_error + (page \<times> session \<times> effect list)" where
  "gtcheckedit depth w data s log =
     (if difflen s - skip s = 0 then
        bind (if form_selection data = ''commit''
              then perform w (GitCommit (form_commitmsg data)) log else Inr log)
          (\<lambda>log1. gtcheck depth w (s\<lparr>difflist := []\<rparr>) log1)
      else bind (edit_decision w data s log) (\<lambda>(s1, log1). gtcheck depth w s1 log1))"

section \<open>Notions for the properties of the review session\<close>

text \<open>
  The effects that only write a warning to the log, the effects of the lookup of the
  images, and the three types a file can have.
\<close>

definition is_warning :: "effect \<Rightarrow> bool" where
  "is_warning e = (case e of LogWarning p \<Rightarrow> True | _ \<Rightarrow> False)"

definition is_image_effect :: "effect \<Rightarrow> bool" where
  "is_image_effect e = (case e of Symlink l t \<Rightarrow> True | LogInfo p \<Rightarrow> True | _ \<Rightarrow> False)"

definition file_types :: "string set" where
  "file_types = {''mod'', ''new'', ''del''}"

text \<open>The messages of the repository commits among the effects, in their order.\<close>

definition commit_messages :: "effect list \<Rightarrow> string list" where
  "commit_messages log = concat (map (\<lambda>e. case e of GitCommit m \<Rightarrow> [m] | _ \<Rightarrow> []) log)"

text \<open>
  The sessions the program can be in: \<^verbatim>\<open>gtcheckinit\<close> starts with \<open>init_session\<close>, and
  every request to \<^verbatim>\<open>gtcheck\<close> or \<^verbatim>\<open>gtcheckedit\<close> that returns a page leaves the next
  session, whatever the repository answers and whatever the form holds.
\<close>

inductive reachable :: "session \<Rightarrow> bool" where
  start: "reachable (init_session dir rf)"
| check: "reachable s \<Longrightarrow> gtcheck depth w s log = Inr (pg, s1, log1) \<Longrightarrow> reachable s1"
| edit: "reachable s \<Longrightarrow> gtcheckedit depth w data s log = Inr (pg, s1, log1) \<Longrightarrow> reachable s1"

text \<open>The stored type is missing or one of the three types.\<close>

definition known_type :: "session \<Rightarrow> bool" where
  "known_type s = (modtype s = None \<or> (\<exists>mt \<in> file_types. modtype s = Some mt))"

text \<open>Neither of the two keys for clean copies is in the session.\<close>

definition no_toggles :: "session \<Rightarrow> bool" where
  "no_toggles s = (skipcc s = None \<and> addcc s = None)"

section \<open>The queue and its cursor\<close>

text \<open>
  \<open>queue_len\<close> is the length of the stored queue. \<open>settled\<close> is what holds of a session
  when \<^verbatim>\<open>gtcheck\<close> has returned a page, \<open>entry\<close> what holds when \<^verbatim>\<open>gtcheckedit\<close> calls
  \<^verbatim>\<open>gtcheck\<close>, and \<open>in_order\<close> what holds inside \<^verbatim>\<open>gtcheck\<close> after the refill of the
  queue. The stored index of the presented file is always zero, since \<^verbatim>\<open>nextcounter\<close>
  goes up in every pass of the loop that does not return.
\<close>

definition queue_len :: "session \<Rightarrow> int" where
  "queue_len s = int (length (difflist s))"

definition index_zero :: "session \<Rightarrow> bool" where
  "index_zero s = (fileidx s = None \<or> fileidx s = Some 0)"

definition entry :: "session \<Rightarrow> bool" where
  "entry s = (0 \<le> skip s \<and> skip s \<le> difflen s
     \<and> (queue_len s \<le> difflen s \<or> queue_len s \<le> skip s) \<and> index_zero s)"

definition settled :: "session \<Rightarrow> bool" where
  "settled s = (0 \<le> skip s \<and> skip s \<le> queue_len s \<and> skip s \<le> difflen s
     \<and> (queue_len s \<le> difflen s \<or> difflen s = skip s) \<and> index_zero s)"

definition in_order :: "session \<Rightarrow> bool" where
  "in_order s = (0 \<le> skip s \<and> skip s \<le> queue_len s \<and> queue_len s \<le> difflen s \<and> index_zero s)"

text \<open>
  The sessions of a review: \<^verbatim>\<open>gtcheckinit\<close> ends with the first call of \<^verbatim>\<open>gtcheck\<close>, and
  every decision of the reviewer (\<^verbatim>\<open>skip\<close>, \<^verbatim>\<open>commit\<close>, \<^verbatim>\<open>stash\<close>, \<^verbatim>\<open>add\<close>, with or
  without undo) is a request to \<^verbatim>\<open>gtcheckedit\<close>. The two toggles for clean copies,
  which \<^verbatim>\<open>gtcheckinit\<close> does not set, may have any value at the start.
\<close>

inductive review_states :: "session \<Rightarrow> bool" where
  opened: "gtcheck depth w ((init_session dir rf)\<lparr>skipcc := scc, addcc := acc\<rparr>) log = Inr (pg, s, log1)
     \<Longrightarrow> review_states s"
| decided: "review_states s \<Longrightarrow> gtcheckedit depth w data s log = Inr (pg, s1, log1)
     \<Longrightarrow> review_states s1"

section \<open>A review of two pages\<close>

text \<open>
  A repository \<^verbatim>\<open>/d/r\<close> with two changed files and their images: \<^verbatim>\<open>0001.gt.txt\<close> went
  from \<^verbatim>\<open>Hte\<close> to \<^verbatim>\<open>Hat\<close> and \<^verbatim>\<open>0002.gt.txt\<close> from \<^verbatim>\<open>x\<close> to \<^verbatim>\<open>y\<close>. Once the first file is
  staged (added and not reset) it is no longer listed as changed, and the staged summary
  is not empty until a commit; the link to the folder is there once it has been made;
  no call raises. The digits are the ASCII digits.
\<close>

definition ascii_digit :: "string \<Rightarrow> (nat \<times> string) option" where
  "ascii_digit s =
     (case s of
        [] \<Rightarrow> None
      | c # cs \<Rightarrow> if 48 \<le> (of_char c :: nat) \<and> (of_char c :: nat) \<le> 57
                 then Some (of_char c - 48, cs) else None)"

definition item_a :: item where
  "item_a = \<lparr>a_path = ''0001.gt.txt'', b_path = Some ''0001.gt.txt'',
     a_blob = Some (Some ''Hte''), b_blob = Some (Some ''Hat''), deleted_file = False,
     new_file = False, diff = Some (''@@ -1 +1 @@'' @ [newline] @ ''H[-t-]{+a+}e'')\<rparr>"

definition item_b :: item where
  "item_b = \<lparr>a_path = ''0002.gt.txt'', b_path = Some ''0002.gt.txt'',
     a_blob = Some (Some ''x''), b_blob = Some (Some ''y''), deleted_file = False,
     new_file = False, diff = Some (''@@ -1 +1 @@'' @ [newline] @ ''[-x-]{+y+}'')\<rparr>"

definition staged_a :: "effect list \<Rightarrow> bool" where
  "staged_a log = (GitAdd ''/d/r/0001.gt.txt'' \<in> set log \<and> GitReset ''/d/r/0001.gt.txt'' \<notin> set log)"

definition committed :: "effect list \<Rightarrow> bool" where
  "committed log = (\<exists>e \<in> set log. case e of GitCommit m \<Rightarrow> True | _ \<Rightarrow> False)"

definition world0 :: world where
  "world0 = (\<lambda>log.
     \<lparr>config_name = ''Ada'', config_email = ''ada@example.org'',
      shortstat = (if staged_a log \<and> \<not> committed log
                   then '' 1 file changed, 1 insertion(+), 1 deletion(-)'' else []),
      changed_paths = (if staged_a log then [''0002.gt.txt'']
                       else [''0001.gt.txt'', ''0002.gt.txt'']),
      diff_patch = (\<lambda>p. if p = Some ''0002.gt.txt'' then [item_b] else [item_a]),
      diff_plain = (\<lambda>p. []),
      read_file = (\<lambda>p. if p = ''/d/r/0001.gt.txt'' then Some ''Hat''
                        else if p = ''/d/r/0002.gt.txt'' then Some ''y'' else None),
      word_diff_objects = (\<lambda>x y. None),
      path_exists = (\<lambda>p. p = ''/d/r/0001.png'' \<or> p = ''/d/r/0002.png''
                         \<or> (p = ''static/symlink/r''
                             \<and> Symlink ''static/symlink/r'' ''/d/r'' \<in> set log)),
      glob_files = (\<lambda>dir pattern.
                      if dir = ''/d/r'' \<and> pattern = ''0001.*''
                      then [''/d/r/0001.gt.txt'', ''/d/r/0001.png'']
                      else if dir = ''/d/r'' \<and> pattern = ''0002.*''
                      then [''/d/r/0002.gt.txt'', ''/d/r/0002.png'']
                      else []),
      image_type = (\<lambda>p. Some (p = ''/d/r/0001.png'' \<or> p = ''/d/r/0002.png'')),
      digit_at = ascii_digit,
      raises = (\<lambda>e. False)\<rparr>)"

definition rf0 :: reservation where
  "rf0 = \<lparr>Repo = ''r'', Dateien_bearbeitet = 0, Dateien_gesamt = 2\<rparr>"

definition form0 :: form where
  "form0 = \<lparr>form_selection = ''commit'', form_commitmsg = ''msg'', form_modtext = ''Hat'',
     form_vkeylang = [], form_name = None, form_email = None, form_undo = None\<rparr>"

definition form_add :: form where
  "form_add = form0\<lparr>form_selection := ''add''\<rparr>"

definition undo_form :: form where
  "undo_form = \<lparr>form_selection = ''skip'', form_commitmsg = ''msg'', form_modtext = ''y'',
     form_vkeylang = [], form_name = None, form_email = None, form_undo = Some ''undo''\<rparr>"

definition session_after ::
  "py_error + (page \<times> session \<times> effect list) \<Rightarrow> (session \<times> effect list) option" where
  "session_after r = (case r of Inl e \<Rightarrow> None | Inr (pg, s, log) \<Rightarrow> Some (s, log))"

text \<open>
  The sessions, pages and effects of a review in this repository: \<open>session_a\<close> with
  \<open>page_a\<close> after \<^verbatim>\<open>gtcheckinit\<close>, \<open>session_b\<close> after the first file has been committed or
  staged, \<open>session_c\<close> after an undo on the second page and \<open>session_d\<close> after one more
  undo.
\<close>

definition log_a :: "effect list" where
  "log_a = [Symlink ''static/symlink/r'' ''/d/r'', LogInfo ''0000.png'']"

definition session_a :: session where
  "session_a = (init_session ''/d/r'' rf0)
     \<lparr>difflist := [Some ''0001.gt.txt'', Some ''0002.gt.txt''], difflen := 2,
      modtype := Some ''mod'', modtext := Some ''Hat'', fname := Some ''/d/r/0001.gt.txt'',
      fpath := Some ''0001.gt.txt'', fileidx := Some 0\<rparr>"

definition page_a :: page where
  "page_a = ReviewPage
     \<lparr>arg_files_len = 2, arg_name = ''Ada'', arg_email = ''ada@example.org'',
      arg_commitmsg = ''[GT Checked]  0001.gt.txt: t -> a'',
      arg_image = Some ''symlink/r/0001.png'', arg_previmage = Some [],
      arg_postimage = Some ''symlink/r/0002.png'',
      arg_difftext = ''H'' @ span_red @ ''t'' @ span_close @ span_green @ ''a'' @ span_close @ ''e'',
      arg_origtext = ''Hte'', arg_modtext = ''Hat'', arg_files_left = ''2'',
      arg_iname = ''0001.png'', arg_fname = ''0001.gt.txt'', arg_skipped = 0,
      arg_vkeylang = []\<rparr>"

definition session_b :: session where
  "session_b = session_a
     \<lparr>difflist := [Some ''0002.gt.txt''], difflen := 1, undo_fpath := ''/d/r/0001.gt.txt'',
      undo_value := ''Hat'', modtext := Some ''y'', fname := Some ''/d/r/0002.gt.txt'',
      fpath := Some ''0002.gt.txt''\<rparr>"


definition log_add :: "effect list" where
  "log_add = log_a @ [SetConfig ''name'' ''GTChecker'', SetConfig ''email'' [],
     GitAdd ''/d/r/0001.gt.txt'', LogInfo ''0003.png'']"

definition session_c :: session where
  "session_c = session_b
     \<lparr>skip := 1, difflist := [Some ''0001.gt.txt'', Some ''0002.gt.txt''], difflen := 2,
      undo_fpath := ''/d/r/0002.gt.txt'', undo_value := ''y''\<rparr>"

definition log_c :: "effect list" where
  "log_c = log_add @ [SetConfig ''name'' ''GTChecker'', SetConfig ''email'' [],
     GitReset ''/d/r/0001.gt.txt'', WriteFile ''/d/r/0001.gt.txt'' ''Hat'', LogInfo ''0003.png'']"

definition session_d :: session where
  "session_d = session_c
     \<lparr>skip := 0, difflist := [None, None], difflen := 3, modtext := Some ''Hat'',
      fname := Some ''/d/r/0001.gt.txt'', fpath := Some ''0001.gt.txt''\<rparr>"

definition log_d :: "effect list" where
  "log_d = log_c @ [SetConfig ''name'' ''GTChecker'', SetConfig ''email'' [],
     GitReset ''/d/r/0002.gt.txt'', WriteFile ''/d/r/0002.gt.txt'' ''y'', LogInfo ''0000.png'']"

section \<open>A clean copy and a diff that does not decode\<close>

text \<open>
  Two repositories with one changed file each and no images. In \<^verbatim>\<open>/d/c\<close> the working
  text of the file differs from the text of the index by a blank at its end. In
  \<^verbatim>\<open>/d/u\<close> neither the patch of the file nor the blob of its working side decodes;
  \<open>world_u\<close> takes what reading the working file gives. No call raises.
\<close>

definition item_c :: item where
  "item_c = \<lparr>a_path = ''0001.gt.txt'', b_path = Some ''0001.gt.txt'',
     a_blob = Some (Some ''same''), b_blob = Some (Some ''same ''), deleted_file = False,
     new_file = False, diff = Some (''@@ -1 +1 @@'' @ [newline] @ ''same{+ +}'')\<rparr>"

definition item_u :: item where
  "item_u = \<lparr>a_path = ''0001.gt.txt'', b_path = Some ''0001.gt.txt'',
     a_blob = Some (Some ''Bar''), b_blob = Some None, deleted_file = False,
     new_file = False, diff = None\<rparr>"

definition one_file_world :: "string \<Rightarrow> item \<Rightarrow> string option \<Rightarrow> world" where
  "one_file_world dir it working = (\<lambda>log.
     \<lparr>config_name = ''Ada'', config_email = ''ada@example.org'',
      shortstat = [],
      changed_paths = [a_path it],
      diff_patch = (\<lambda>p. [it]),
      diff_plain = (\<lambda>p. []),
      read_file = (\<lambda>p. if p = joinpath dir (a_path it) then working else None),
      word_diff_objects = (\<lambda>x y. None),
      path_exists = (\<lambda>p. False),
      glob_files = (\<lambda>d pattern. []),
      image_type = (\<lambda>p. Some False),
      digit_at = ascii_digit,
      raises = (\<lambda>e. False)\<rparr>)"

definition world_c :: world where
  "world_c = one_file_world ''/d/c'' item_c (Some ''same '')"

definition world_u :: "string option \<Rightarrow> world" where
  "world_u working = one_file_world ''/d/u'' item_u working"

definition rf1 :: reservation where
  "rf1 = \<lparr>Repo = ''u'', Dateien_bearbeitet = 0, Dateien_gesamt = 1\<rparr>"

text \<open>The session and the page of \<^verbatim>\<open>/d/u\<close> when the working file reads as \<^verbatim>\<open>Baz\<close>.\<close>

definition session_u :: session where
  "session_u = (init_session ''/d/u'' rf1)
     \<lparr>difflist := [Some ''0001.gt.txt''], difflen := 1, modtype := Some ''mod'',
      modtext := Some ''Baz'', fname := Some ''/d/u/0001.gt.txt'',
      fpath := Some ''0001.gt.txt'', fileidx := Some 0\<rparr>"

definition page_u :: page where
  "page_u = ReviewPage
     \<lparr>arg_files_len = 1, arg_name = ''Ada'', arg_email = ''ada@example.org'',
      arg_commitmsg = ''[GT Checked]  0001.gt.txt: '', arg_image = None,
      arg_previmage = None, arg_postimage = None, arg_difftext = [],
      arg_origtext = ''Bar'', arg_modtext = ''Baz'', arg_files_left = ''1'',
      arg_iname = ''No image'', arg_fname = ''0001.gt.txt'', arg_skipped = 0,
      arg_vkeylang = []\<rparr>"

section \<open>Properties of \<^verbatim>\<open>pop_idx\<close>\<close>

text \<open>
  C10, as the code has it: for every stored list and every index that is not negative,
  \<^verbatim>\<open>pop_idx\<close> does not raise; when the index is below the length of the list the element
  at exactly that index is removed, otherwise the list stays as it is.
\<close>

theorem pop_idx_nonnegative:
  "0 \<le> popidx \<Longrightarrow>
   pop_idx l popidx =
     Inr (if popidx < int (length l) then take (nat popidx) l @ drop (Suc (nat popidx)) l else l)"
  by (auto simp: pop_idx_def list_pop_def Let_def)

theorem pop_idx_nonnegative_witness:
  "(0::int) \<le> 1 \<and> pop_idx [''a'', ''b'', ''c''] 1 = Inr [''a'', ''c'']
   \<and> pop_idx [''a'', ''b'', ''c''] 3 = Inr [''a'', ''b'', ''c'']"
  using pop_idx_nonnegative [of 1 "[''a'', ''b'', ''c'']"]
    pop_idx_nonnegative [of 3 "[''a'', ''b'', ''c'']"]
  by simp

text \<open>
  With the index \<open>-1\<close> and the empty list the guard \<^verbatim>\<open>len(...) > popidx\<close> holds and
  \<^verbatim>\<open>pop(-1)\<close> raises \<^verbatim>\<open>IndexError\<close>.
\<close>

theorem pop_idx_negative_raises:
  "pop_idx ([] :: string list) (- 1) = Inl IndexError"
  by (simp add: pop_idx_def list_pop_def)

section \<open>Properties of \<^verbatim>\<open>color_diffs\<close>\<close>

lemma replace_Nil: "old \<noteq> [] \<Longrightarrow> replace old new [] = []"
  by (simp add: replace.simps)

lemma replace_hit: "replace [x, y] new (x # y # t) = new @ replace [x, y] new t"
  by (subst replace.simps) simp

lemma replace_miss:
  "\<not> prefix old (c # cs) \<Longrightarrow> old \<noteq> [] \<Longrightarrow>
   replace old new (c # cs) = c # replace old new cs"
  by (subst replace.simps) simp

lemma replace_skip_first:
  "x \<notin> set s \<Longrightarrow> replace [x, y] new (s @ t) = s @ replace [x, y] new t"
proof (induction s)
  case Nil
  show ?case by simp
next
  case (Cons c cs)
  then have "c \<noteq> x" "x \<notin> set cs" by auto
  then show ?case using Cons.IH
    by (subst replace.simps) simp
qed

lemma replace_skip_second:
  "y \<notin> set s \<Longrightarrow> x \<noteq> y \<Longrightarrow>
   replace [x, y] new (s @ x # y # t) = s @ new @ replace [x, y] new t"
proof (induction s)
  case Nil
  show ?case by (simp add: replace_hit)
next
  case (Cons c cs)
  then have ih: "replace [x, y] new (cs @ x # y # t) = cs @ new @ replace [x, y] new t"
    and y: "y \<notin> set cs" "c \<noteq> y" by auto
  have "\<not> prefix [x, y] (c # cs @ x # y # t)"
    using y Cons.prems(2) by (cases cs) auto
  from replace_miss [OF this, of new] ih show ?case by simp
qed

lemma replace_none_second:
  "y \<notin> set s \<Longrightarrow> replace [x, y] new s = s"
proof (induction s)
  case Nil
  show ?case by (simp add: replace_Nil)
next
  case (Cons c cs)
  then have ih: "replace [x, y] new cs = cs" and y: "y \<notin> set cs" "c \<noteq> y" by auto
  have "\<not> prefix [x, y] (c # cs)"
    using y by (cases cs) auto
  from replace_miss [OF this, of new] ih show ?case by simp
qed

lemma replace_ins_open:
  assumes "\<forall>p \<in> set ps. x \<notin> set (piece_text p)"
    and "x \<notin> set ic" "x \<notin> set do" "x \<notin> set dc"
  shows "replace [x, y] new (fmt [x, y] ic do dc ps) = fmt new ic do dc ps"
  using assms(1)
proof (induction ps)
  case Nil
  show ?case by (simp add: fmt_def replace_Nil)
next
  case (Cons p ps)
  then have ih: "replace [x, y] new (fmt [x, y] ic do dc ps) = fmt new ic do dc ps"
    and t: "x \<notin> set (piece_text p)" by auto
  show ?case
  proof (cases p)
    case (Plain t)
    with t ih show ?thesis by (simp add: fmt_def replace_skip_first)
  next
    case (Ins u)
    with t assms(2) have "x \<notin> set (u @ ic)" by simp
    from replace_skip_first [OF this, of y new] ih Ins show ?thesis
      by (simp add: fmt_def replace_hit)
  next
    case (Del u)
    with t assms(3,4) have "x \<notin> set (do @ u @ dc)" by simp
    from replace_skip_first [OF this, of y new] ih Del show ?thesis
      by (simp add: fmt_def)
  qed
qed

lemma replace_del_open:
  assumes "\<forall>p \<in> set ps. x \<notin> set (piece_text p)"
    and "x \<notin> set io" "x \<notin> set ic" "x \<notin> set dc"
  shows "replace [x, y] new (fmt io ic [x, y] dc ps) = fmt io ic new dc ps"
  using assms(1)
proof (induction ps)
  case Nil
  show ?case by (simp add: fmt_def replace_Nil)
next
  case (Cons p ps)
  then have ih: "replace [x, y] new (fmt io ic [x, y] dc ps) = fmt io ic new dc ps"
    and t: "x \<notin> set (piece_text p)" by auto
  show ?case
  proof (cases p)
    case (Plain t)
    with t ih show ?thesis by (simp add: fmt_def replace_skip_first)
  next
    case (Ins u)
    with t assms(2,3) have "x \<notin> set (io @ u @ ic)" by simp
    from replace_skip_first [OF this, of y new] ih Ins show ?thesis
      by (simp add: fmt_def)
  next
    case (Del u)
    with t assms(4) have "x \<notin> set (u @ dc)" by simp
    from replace_skip_first [OF this, of y new] ih Del show ?thesis
      by (simp add: fmt_def replace_hit)
  qed
qed

lemma replace_ins_close:
  assumes "\<forall>p \<in> set ps. y \<notin> set (piece_text p)"
    and "y \<notin> set io" "y \<notin> set do" "y \<notin> set dc" "x \<noteq> y" "y \<notin> set pre"
  shows "replace [x, y] new (pre @ fmt io [x, y] do dc ps) = pre @ fmt io new do dc ps"
  using assms(1,6)
proof (induction ps arbitrary: pre)
  case Nil
  then show ?case by (simp add: fmt_def replace_none_second)
next
  case (Cons p ps)
  then have t: "y \<notin> set (piece_text p)" and rest: "\<forall>p \<in> set ps. y \<notin> set (piece_text p)"
    by auto
  show ?case
  proof (cases p)
    case (Plain u)
    with t Cons.prems(2) have "y \<notin> set (pre @ u)" by simp
    from Cons.IH [OF rest this] Plain show ?thesis by (simp add: fmt_def)
  next
    case (Ins u)
    with t Cons.prems(2) assms(2) have "y \<notin> set (pre @ io @ u)" by simp
    from replace_skip_second [OF this assms(5), of new] Cons.IH [OF rest, of "[]"] Ins
    show ?thesis by (simp add: fmt_def)
  next
    case (Del u)
    with t Cons.prems(2) assms(3,4) have "y \<notin> set (pre @ do @ u @ dc)" by simp
    from Cons.IH [OF rest this] Del show ?thesis by (simp add: fmt_def)
  qed
qed

lemma replace_del_close:
  assumes "\<forall>p \<in> set ps. y \<notin> set (piece_text p)"
    and "y \<notin> set io" "y \<notin> set ic" "y \<notin> set do" "x \<noteq> y" "y \<notin> set pre"
  shows "replace [x, y] new (pre @ fmt io ic do [x, y] ps) = pre @ fmt io ic do new ps"
  using assms(1,6)
proof (induction ps arbitrary: pre)
  case Nil
  then show ?case by (simp add: fmt_def replace_none_second)
next
  case (Cons p ps)
  then have t: "y \<notin> set (piece_text p)" and rest: "\<forall>p \<in> set ps. y \<notin> set (piece_text p)"
    by auto
  show ?case
  proof (cases p)
    case (Plain u)
    with t Cons.prems(2) have "y \<notin> set (pre @ u)" by simp
    from Cons.IH [OF rest this] Plain show ?thesis by (simp add: fmt_def)
  next
    case (Ins u)
    with t Cons.prems(2) assms(2,3) have "y \<notin> set (pre @ io @ u @ ic)" by simp
    from Cons.IH [OF rest this] Ins show ?thesis by (simp add: fmt_def)
  next
    case (Del u)
    with t Cons.prems(2) assms(4) have "y \<notin> set (pre @ do @ u)" by simp
    from replace_skip_second [OF this assms(5), of new] Cons.IH [OF rest, of "[]"] Del
    show ?thesis by (simp add: fmt_def)
  qed
qed

lemma color_diffs_word_diff_text:
  assumes "well_marked ps"
  shows "color_diffs (word_diff_text ps) = rendered ps"
proof -
  have a: "\<forall>p \<in> set ps. CHR ''{'' \<notin> set (piece_text p)"
    and b: "\<forall>p \<in> set ps. CHR ''}'' \<notin> set (piece_text p)"
    and c: "\<forall>p \<in> set ps. CHR ''['' \<notin> set (piece_text p)"
    and d: "\<forall>p \<in> set ps. CHR '']'' \<notin> set (piece_text p)"
    using assms by (auto simp: well_marked_def marker_chars_def)
  have 1: "replace ''{+'' span_green (fmt ''{+'' ''+}'' ''[-'' ''-]'' ps)
           = fmt span_green ''+}'' ''[-'' ''-]'' ps"
    by (rule replace_ins_open [OF a]) simp_all
  have 2: "replace ''+}'' span_close (fmt span_green ''+}'' ''[-'' ''-]'' ps)
           = fmt span_green span_close ''[-'' ''-]'' ps"
    using replace_ins_close [OF b, of span_green "''[-''" "''-]''" "CHR ''+''" "[]" span_close]
    by (simp add: span_green_def)
  have 3: "replace ''[-'' span_red (fmt span_green span_close ''[-'' ''-]'' ps)
           = fmt span_green span_close span_red ''-]'' ps"
    by (rule replace_del_open [OF c]) (simp_all add: span_green_def span_close_def)
  have 4: "replace ''-]'' span_close (fmt span_green span_close span_red ''-]'' ps)
           = fmt span_green span_close span_red span_close ps"
    using replace_del_close [OF d, of span_green span_close span_red "CHR ''-''" "[]" span_close]
    by (simp add: span_green_def span_red_def span_close_def)
  show ?thesis
    by (simp add: color_diffs_def word_diff_text_def rendered_def 1 2 3 4)
qed


lemma balanced_from_plain:
  "CHR ''<'' \<notin> set t \<Longrightarrow> balanced_from depth (t @ s) = balanced_from depth s"
proof (induction t)
  case Nil
  show ?case by simp
next
  case (Cons c cs)
  then have "c \<noteq> CHR ''<''" and ih: "balanced_from depth (cs @ s) = balanced_from depth s"
    by auto
  then show ?case
    by (subst balanced_from.simps) (simp add: span_green_def span_red_def span_close_def)
qed

lemma balanced_from_green:
  "balanced_from depth (span_green @ s) = balanced_from (Suc depth) s"
  by (subst balanced_from.simps) (simp add: span_green_def)

lemma balanced_from_red:
  "balanced_from depth (span_red @ s) = balanced_from (Suc depth) s"
  by (subst balanced_from.simps) (simp add: span_green_def span_red_def)

lemma balanced_from_close:
  "balanced_from (Suc depth) (span_close @ s) = balanced_from depth s"
  by (subst balanced_from.simps) (simp add: span_green_def span_red_def span_close_def)

lemma balanced_from_rendered:
  "well_marked ps \<Longrightarrow> balanced_from depth (rendered ps) = (depth = 0)"
proof (induction ps)
  case Nil
  show ?case by (subst balanced_from.simps) (simp add: rendered_def fmt_def)
next
  case (Cons p ps)
  then have ih: "balanced_from depth (rendered ps) = (depth = 0)"
    and t: "CHR ''<'' \<notin> set (piece_text p)"
    by (auto simp: well_marked_def marker_chars_def)
  have r: "rendered (p # ps) = fmt_piece span_green span_close span_red span_close p @ rendered ps"
    by (simp add: rendered_def fmt_def)
  show ?case
  proof (cases p)
    case (Plain u)
    with t ih r show ?thesis by (simp add: balanced_from_plain)
  next
    case (Ins u)
    with t ih r show ?thesis
      by (simp add: balanced_from_green balanced_from_plain balanced_from_close)
  next
    case (Del u)
    with t ih r show ?thesis
      by (simp add: balanced_from_red balanced_from_plain balanced_from_close)
  qed
qed

text \<open>
  C8, as the code has it: \<^verbatim>\<open>color_diffs\<close> is a function of its argument alone, and on
  every well-marked word-diff text it wraps each inserted text in the green wrapper
  and each deleted text in the red wrapper, each followed by its closing wrapper, and
  leaves the plain text as it is; the markup it returns is balanced.
\<close>

theorem color_diffs_well_marked:
  assumes "well_marked ps"
  shows "color_diffs (word_diff_text ps) = rendered ps
         \<and> wrappers_balanced (color_diffs (word_diff_text ps))"
  using assms color_diffs_word_diff_text [OF assms] balanced_from_rendered [of ps 0]
  by (simp add: wrappers_balanced_def)

theorem color_diffs_well_marked_witness:
  "well_marked [Plain ''H'', Del ''t'', Ins ''a'', Plain ''e'']
   \<and> word_diff_text [Plain ''H'', Del ''t'', Ins ''a'', Plain ''e''] = ''H[-t-]{+a+}e''
   \<and> color_diffs ''H[-t-]{+a+}e'' = rendered [Plain ''H'', Del ''t'', Ins ''a'', Plain ''e'']
   \<and> wrappers_balanced (color_diffs ''H[-t-]{+a+}e'')"
proof -
  have w: "well_marked [Plain ''H'', Del ''t'', Ins ''a'', Plain ''e'']"
    by (simp add: well_marked_def marker_chars_def)
  have t: "word_diff_text [Plain ''H'', Del ''t'', Ins ''a'', Plain ''e''] = ''H[-t-]{+a+}e''"
    by (simp add: word_diff_text_def fmt_def)
  show ?thesis using color_diffs_well_marked [OF w] w unfolding t by blast
qed

text \<open>
  An opening marker without its closing marker becomes an opening wrapper that nothing
  closes.
\<close>

theorem color_diffs_unbalanced:
  "color_diffs ''{+'' = span_green \<and> \<not> wrappers_balanced (color_diffs ''{+'')"
  by (simp add: wrappers_balanced_def color_diffs_def replace.simps balanced_from.simps
      span_green_def span_red_def span_close_def)

section \<open>Properties of \<^verbatim>\<open>modifications\<close>\<close>

lemma mods_loop_append:
  "mods_loop (xs @ ys) st = mods_loop ys (mods_loop xs st)"
  by (induction xs arbitrary: st) simp_all

lemma mods_step_prefix:
  "mods \<noteq> [] \<Longrightarrow>
   mods_step m (pre @ mods, lp) = (pre @ fst (mods_step m (mods, lp)), snd (mods_step m (mods, lp)))"
proof -
  assume ne: "mods \<noteq> []"
  then have k: "length pre + length mods - Suc 0 = length pre + (length mods - Suc 0)"
    by (cases mods) simp_all
  have n: "(pre @ mods) ! (length pre + (length mods - Suc 0)) = mods ! (length mods - Suc 0)"
    by (simp add: nth_append)
  have u: "\<And>v. (pre @ mods)[length pre + (length mods - Suc 0) := v]
                = pre @ mods[length mods - Suc 0 := v]"
    by (simp add: list_update_append)
  show ?thesis using ne
    by (simp add: mods_step_def Let_def k n u del: nth_append list_update_append)
qed

lemma mods_step_nonempty: "fst (mods_step m (mods, lp)) \<noteq> []"
  by (auto simp: mods_step_def Let_def)

lemma mods_loop_prefix:
  "mods \<noteq> [] \<Longrightarrow>
   mods_loop ms (pre @ mods, lp) = (pre @ fst (mods_loop ms (mods, lp)), snd (mods_loop ms (mods, lp)))"
proof (induction ms arbitrary: mods lp)
  case Nil
  show ?case by simp
next
  case (Cons m ms)
  obtain mods' lp' where st: "mods_step m (mods, lp) = (mods', lp')"
    by (cases "mods_step m (mods, lp)")
  then have ne: "mods' \<noteq> []"
    using mods_step_nonempty [of m mods lp] by simp
  from mods_step_prefix [OF Cons.prems, of m pre lp] st
  have "mods_step m (pre @ mods, lp) = (pre @ mods', lp')" by simp
  with Cons.IH [OF ne, of lp'] st show ?case by simp
qed

lemma mods_step_closed:
  "mods \<noteq> [] \<Longrightarrow> snd (last mods) \<noteq> [] \<Longrightarrow>
   mods_step m (mods, lp) = (mods @ [(or_empty (group2 m), or_empty (group3 m))], m_end m)"
  by (simp add: mods_step_def Let_def last_conv_nth)

lemma mods_step_first:
  "mods_step m ([], lp) = ([(or_empty (group2 m), or_empty (group3 m))], m_end m)"
  by (simp add: mods_step_def Let_def)

lemma mods_loop_after_closed:
  assumes "mods \<noteq> []" "snd (last mods) \<noteq> []"
  shows "fst (mods_loop ms (mods, lp)) = mods @ fst (mods_loop ms ([], lp'))"
proof (cases ms)
  case Nil
  then show ?thesis by simp
next
  case (Cons m ms')
  let ?u = "(or_empty (group2 m), or_empty (group3 m))"
  have "mods_loop ms (mods, lp) = mods_loop ms' (mods @ [?u], m_end m)"
    using Cons mods_step_closed [OF assms] by simp
  also have "\<dots> = (mods @ fst (mods_loop ms' ([?u], m_end m)), snd (mods_loop ms' ([?u], m_end m)))"
    by (rule mods_loop_prefix) simp
  finally show ?thesis using Cons by (simp add: mods_step_first)
qed

lemma mods_loop_pair:
  assumes "group3 m1 = None" "group2 m1 = Some d" "group3 m2 = Some i" "i \<noteq> []"
    and "m_start m2 = m_end m1"
  shows "mods_loop [m1, m2] (mods, lp) = (mods @ [(d, i)], m_end m1)"
  using assms by (simp add: mods_step_def Let_def or_empty_def nth_append)

lemma lazy_until_split:
  "lazy_until closer s = Some (body, rest) \<Longrightarrow> s = body @ closer @ rest"
proof (induction s arbitrary: body rest)
  case Nil
  then show ?case by (simp split: if_splits)
next
  case (Cons c cs)
  show ?case
  proof (cases "prefix closer (c # cs)")
    case True
    with Cons.prems have "body = []" "rest = drop (length closer) (c # cs)" by simp_all
    with True show ?thesis by (metis append_Nil append_take_drop_id prefix_def append_eq_conv_conj)
  next
    case False
    with Cons.prems obtain b where b: "lazy_until closer cs = Some (b, rest)" "body = c # b"
      by (auto split: if_splits option.splits)
    from Cons.IH [OF b(1)] b(2) show ?thesis by simp
  qed
qed

lemma match_here_deletion:
  "match_here s = Some (Some body, g3, rest) \<Longrightarrow> g3 = None \<and> s = ''[-'' @ body @ ''-]'' @ rest"
  by (auto simp: match_here_def prefix_def split: if_splits option.splits dest!: lazy_until_split)

lemma match_here_insertion:
  "match_here s = Some (None, g3, rest) \<Longrightarrow> \<exists>body. g3 = Some body \<and> s = ''{+'' @ body @ ''+}'' @ rest"
  by (auto simp: match_here_def prefix_def split: if_splits option.splits dest!: lazy_until_split)

lemma match_here_suffix:
  "match_here s = Some (g2, g3, rest) \<Longrightarrow> suffix rest s"
  by (cases g2) (auto dest!: match_here_deletion match_here_insertion simp: suffix_def)

lemma finditer_from_origin:
  "m \<in> set (finditer_from pos s) \<Longrightarrow>
   \<exists>s' rest. suffix s' s \<and> match_here s' = Some (group2 m, group3 m, rest)"
proof (induction pos s rule: finditer_from.induct)
  case (1 pos s)
  show ?case
  proof (cases "s = []")
    case True
    with "1.prems" show ?thesis by (simp add: finditer_from.simps)
  next
    case ne: False
    show ?thesis
    proof (cases "match_here s")
      case None
      with ne "1.prems" have "m \<in> set (finditer_from (Suc pos) (tl s))"
        by (simp add: finditer_from.simps [of pos s])
      from "1.IH"(1) [OF ne None this] obtain s' rest
        where "suffix s' (tl s)" "match_here s' = Some (group2 m, group3 m, rest)" by blast
      moreover have "suffix (tl s) s" using ne by (metis suffix_tl)
      ultimately show ?thesis by (meson suffix_order.trans)
    next
      case (Some r)
      obtain g2 g3 rest where r: "r = (g2, g3, rest)" by (cases r)
      from ne Some r "1.prems"
      consider "group2 m = g2 \<and> group3 m = g3"
        | "m \<in> set (finditer_from (pos + (length s - length rest)) rest)"
        by (auto simp: finditer_from.simps [of pos s])
      then show ?thesis
      proof cases
        case 1
        with Some r show ?thesis by blast
      next
        case 2
        from "1.IH"(2) [OF ne Some r [symmetric] refl 2] obtain s' rest'
          where s': "suffix s' rest" "match_here s' = Some (group2 m, group3 m, rest')" by blast
        have "suffix rest s" using Some r by (auto dest: match_here_suffix)
        with s' show ?thesis by (meson suffix_order.trans)
      qed
    qed
  qed
qed


text \<open>
  C3, as the code has it: whenever the scan of a diff text finds a deletion marker and,
  starting where it ends, an insertion marker whose text is not empty, the parser
  returns exactly one unit \<open>(d, i)\<close> for the pair, the deleted and the inserted text:
  the units before it are those of the markers before, the units after it those of the
  markers after.
\<close>

theorem modifications_merges_pair:
  assumes "finditer difftext = before @ [m1, m2] @ after"
    and "group2 m1 = Some d"
    and "group3 m2 = Some i" "m_start m2 = m_end m1" "i \<noteq> []"
  shows "modifications difftext =
           fst (mods_loop before ([], 1)) @ [(d, i)] @ fst (mods_loop after ([], 1))"
proof -
  have "m1 \<in> set (finditer_from 0 difftext)"
    using assms(1) by (simp add: finditer_def)
  then obtain s' rest where "match_here s' = Some (group2 m1, group3 m1, rest)"
    by (blast dest: finditer_from_origin)
  with assms(2) have n: "group3 m1 = None"
    by (auto dest: match_here_deletion)
  obtain us lp where b: "mods_loop before ([], 1) = (us, lp)"
    by (cases "mods_loop before ([], 1)")
  have "mods_loop (before @ [m1, m2]) ([], 1) = (us @ [(d, i)], m_end m1)"
    using b mods_loop_pair [OF n assms(2,3,5,4), of us lp] by (simp only: mods_loop_append)
  then have "modifications difftext = fst (mods_loop after (us @ [(d, i)], m_end m1))"
    using assms(1) mods_loop_append [of "before @ [m1, m2]" after "([], 1)"]
    by (simp add: modifications_def)
  also have "\<dots> = (us @ [(d, i)]) @ fst (mods_loop after ([], 1))"
    by (rule mods_loop_after_closed) (simp_all add: assms(5))
  finally show ?thesis using b by simp
qed

theorem modifications_merges_pair_witness:
  "modifications ''H[-t-]{+a+}e'' = [(''t'', ''a'')]"
proof -
  let ?m1 = "\<lparr>m_start = 1, m_end = 6, group2 = Some ''t'', group3 = None\<rparr>"
  let ?m2 = "\<lparr>m_start = 6, m_end = 11, group2 = None, group3 = Some ''a''\<rparr>"
  have f: "finditer ''H[-t-]{+a+}e'' = [] @ [?m1, ?m2] @ []"
    by (simp add: finditer_def finditer_from.simps match_here_def newline_def)
  from modifications_merges_pair [OF f, of "''t''" "''a''"] show ?thesis by simp
qed

text \<open>
  An insertion marker with no text after a deletion marker is appended as a unit of its
  own: the test \<^verbatim>\<open>add != ""\<close> keeps it from filling the pending unit.
\<close>

theorem modifications_empty_insertion_two_units:
  "modifications ''[-a-]{++}'' = [(''a'', []), ([], [])]"
  by (simp add: modifications_def finditer_def finditer_from.simps match_here_def
      mods_step_def or_empty_def newline_def)

lemma mods_step_nonempty_side:
  assumes "\<forall>u \<in> set mods. nonempty_side u"
    and "or_empty (group2 m) \<noteq> [] \<or> or_empty (group3 m) \<noteq> []"
  shows "\<forall>u \<in> set (fst (mods_step m (mods, lp))). nonempty_side u"
proof (cases "or_empty (group3 m) \<noteq> [] \<and> length mods > 0 \<and> lp = m_start m
         \<and> snd (mods ! (length mods - 1)) = []")
  case True
  then have "fst (mods_step m (mods, lp))
      = mods[length mods - 1 := (fst (mods ! (length mods - 1)), or_empty (group3 m))]"
    by (simp add: mods_step_def Let_def)
  moreover have "nonempty_side (fst (mods ! (length mods - 1)), or_empty (group3 m))"
    using True by (simp add: nonempty_side_def)
  ultimately show ?thesis using assms(1)
    by (auto dest!: set_update_subset_insert [THEN subsetD])
next
  case False
  then have "fst (mods_step m (mods, lp)) = mods @ [(or_empty (group2 m), or_empty (group3 m))]"
    by (auto simp: mods_step_def Let_def)
  then show ?thesis using assms by (auto simp: nonempty_side_def)
qed

lemma mods_loop_nonempty_side:
  assumes "\<forall>m \<in> set ms. or_empty (group2 m) \<noteq> [] \<or> or_empty (group3 m) \<noteq> []"
    and "\<forall>u \<in> set mods. nonempty_side u"
  shows "\<forall>u \<in> set (fst (mods_loop ms (mods, lp))). nonempty_side u"
  using assms
proof (induction ms arbitrary: mods lp)
  case Nil
  then show ?case by simp
next
  case (Cons m ms)
  obtain mods' lp' where st: "mods_step m (mods, lp) = (mods', lp')"
    by (cases "mods_step m (mods, lp)")
  have "\<forall>u \<in> set mods'. nonempty_side u"
    using mods_step_nonempty_side [OF Cons.prems(2), of m lp] Cons.prems(1) st by simp
  with Cons.IH [of mods' lp'] Cons.prems(1) st show ?case by simp
qed

lemma finditer_body_nonempty:
  assumes "\<not> sublist ''[--]'' difftext" "\<not> sublist ''{++}'' difftext"
    and "m \<in> set (finditer difftext)"
  shows "or_empty (group2 m) \<noteq> [] \<or> or_empty (group3 m) \<noteq> []"
proof -
  from assms(3) obtain s' rest
    where s': "suffix s' difftext" "match_here s' = Some (group2 m, group3 m, rest)"
    unfolding finditer_def by (blast dest: finditer_from_origin)
  show ?thesis
  proof (cases "group2 m")
    case (Some body)
    with s' have "s' = ''[-'' @ body @ ''-]'' @ rest" by (auto dest: match_here_deletion)
    then have "body = [] \<Longrightarrow> prefix ''[--]'' s'" by (simp add: prefix_def)
    with s'(1) assms(1) have "body \<noteq> []"
      by (meson prefix_imp_sublist suffix_imp_sublist sublist_order.order_trans)
    with Some show ?thesis by (simp add: or_empty_def)
  next
    case None
    with s' obtain body where b: "group3 m = Some body" "s' = ''{+'' @ body @ ''+}'' @ rest"
      by (auto dest: match_here_insertion)
    then have "body = [] \<Longrightarrow> prefix ''{++}'' s'" by (simp add: prefix_def)
    with s'(1) assms(2) have "body \<noteq> []"
      by (meson prefix_imp_sublist suffix_imp_sublist sublist_order.order_trans)
    with b show ?thesis by (simp add: or_empty_def)
  qed
qed

lemma contains_sublist: "contains sub s = sublist sub s"
  by (induction s) (auto simp: sublist_Cons_right)

text \<open>
  C4, as the code has it: for every diff text that holds neither the empty deletion
  marker \<^verbatim>\<open>[--]\<close> nor the empty insertion marker \<^verbatim>\<open>{++}\<close>, every unit the parser
  returns has at least one side that is not empty.
\<close>

theorem modifications_nonempty_side:
  assumes "\<not> contains ''[--]'' difftext" "\<not> contains ''{++}'' difftext"
  shows "\<forall>u \<in> set (modifications difftext). nonempty_side u"
  unfolding modifications_def
  by (rule mods_loop_nonempty_side)
     (use assms in \<open>auto simp: contains_sublist dest: finditer_body_nonempty\<close>)

theorem modifications_nonempty_side_witness:
  "\<not> contains ''[--]'' ''H[-t-]{+a+}e'' \<and> \<not> contains ''{++}'' ''H[-t-]{+a+}e''
   \<and> modifications ''H[-t-]{+a+}e'' = [(''t'', ''a'')] \<and> nonempty_side (''t'', ''a'')"
proof -
  have a: "\<not> contains ''[--]'' ''H[-t-]{+a+}e''" by simp
  have b: "\<not> contains ''{++}'' ''H[-t-]{+a+}e''" by simp
  have m: "modifications ''H[-t-]{+a+}e'' = [(''t'', ''a'')]"
    by (simp add: modifications_def finditer_def finditer_from.simps match_here_def
        mods_step_def or_empty_def newline_def)
  from modifications_nonempty_side [OF a b] have "nonempty_side (''t'', ''a'')"
    unfolding m by simp
  with a b m show ?thesis by blast
qed

text \<open>A marker without text gives a unit with two empty sides.\<close>

theorem modifications_empty_marker_unit:
  "modifications ''[--]'' = [([], [])] \<and> \<not> nonempty_side ([], [])"
  by (simp add: modifications_def finditer_def finditer_from.simps match_here_def
      mods_step_def or_empty_def nonempty_side_def newline_def)

section \<open>Properties of one pass through the loop of \<^verbatim>\<open>gtcheck\<close>\<close>

lemma bind_Inr_iff:
  "(bind r f = Inr y) = (\<exists>x. r = Inr x \<and> f x = Inr y)"
  by (cases r) (simp_all add: bind_def)

lemma key_Inr_iff: "(key v = Inr x) = (v = Some x)"
  by (cases v) (simp_all add: key_def)

lemma perform_Inr_iff:
  "(perform w e log = Inr l) = (\<not> raises (w log) e \<and> \<not> empty_target e \<and> l = log @ [e])"
  by (auto simp: perform_def)

lemma perform_all_Inr:
  "perform_all w es log = Inr l \<Longrightarrow> l = log @ es"
proof (induction es arbitrary: log)
  case Nil
  then show ?case by simp
next
  case (Cons e es)
  from Cons.prems obtain l1 where "perform w e log = Inr l1" "perform_all w es l1 = Inr l"
    by (auto simp: bind_Inr_iff)
  with Cons.IH [of l1] show ?case by (simp add: perform_Inr_iff)
qed

lemma get_difftext_warnings:
  "get_difftext v origtext it dir = Inr (difftext, ws) \<Longrightarrow> list_all is_warning ws"
  by (auto simp: get_difftext_def bind_Inr_iff Let_def is_warning_def
      split: if_splits option.splits sum.splits)

lemma classify_no_merge:
  assumes "classify v it [] origtext colored s = Inr (s2, mtext, colored2)"
    and "modtype s = Some ''mod''"
  shows "\<exists>mt \<in> file_types. s2 = s\<lparr>modtype := Some mt\<rparr>"
  using assms
  by (auto simp: classify_def Let_def file_types_def split: if_splits option.splits)

lemma neighbour_effects:
  "neighbour w dir path log = Inr (r, log1) \<Longrightarrow>
   \<exists>xs. log1 = log @ xs \<and> list_all is_image_effect xs"
  by (auto simp: neighbour_def bind_Inr_iff is_image_effect_def split: if_splits)

lemma surrounding_images_effects:
  assumes "surrounding_images w img dir log = Inr (prev, post, log1)"
  shows "\<exists>xs. log1 = log @ xs \<and> list_all is_image_effect xs"
proof -
  from assms obtain a b l where 1: "neighbour w dir a log = Inr (prev, l)"
    and 2: "neighbour w dir b l = Inr (post, log1)"
    by (auto simp: surrounding_images_def bind_Inr_iff Let_def split: option.splits)
  from neighbour_effects [OF 1] neighbour_effects [OF 2] show ?thesis
    by (metis append.assoc list_all_append)
qed

lemma ensure_link_effects:
  "ensure_link w dir log = Inr l \<Longrightarrow> \<exists>xs. l = log @ xs \<and> list_all is_image_effect xs"
  by (auto simp: ensure_link_def Let_def perform_Inr_iff is_image_effect_def split: if_splits)

lemma image_context_effects:
  assumes "image_context w dir path log = Inr (images, log1)"
  shows "\<exists>xs. log1 = log @ xs \<and> list_all is_image_effect xs"
proof -
  from assms obtain l where l: "ensure_link w dir log = Inr l"
    and r: "log1 = l \<or> (\<exists>img prev post. surrounding_images w img dir l = Inr (prev, post, log1))"
    by (fastforce simp: image_context_def bind_Inr_iff split: option.splits)
  from r have "\<exists>xs. log1 = l @ xs \<and> list_all is_image_effect xs"
    by (auto dest: surrounding_images_effects)
  with ensure_link_effects [OF l] show ?thesis by (metis append.assoc list_all_append)
qed

lemma present_step_cases:
  assumes "present_step w h fidx filename nc s log = Inr out"
  obtains (dropped) l where "pop_idx (difflist s) (skip s + fidx) = Inr l"
      "out = Continue (s\<lparr>difflist := l\<rparr>) log (nc + 1)"
    | (staged) mt ws l where "mt \<in> file_types" "list_all is_warning ws"
      "pop_idx (difflist s) (skip s + fidx) = Inr l"
      "skipcc s = Some True" "addcc s = Some True"
      "out = Continue (s\<lparr>modtype := Some mt, difflist := l\<rparr>)
                (log @ ws @ [GitAdd (str_path filename)]) (nc + 1)"
    | (passed) mt ws where "mt \<in> file_types" "list_all is_warning ws"
      "skipcc s = Some True" "addcc s = Some False"
      "out = Continue (s\<lparr>modtype := Some mt, skip := skip s + 1\<rparr>) (log @ ws) (nc + 1)"
    | (shown) mt ws xs pg mtext p where "mt \<in> file_types" "list_all is_warning ws"
      "list_all is_image_effect xs"
      "out = Present pg
               (s\<lparr>modtype := Some mt, modtext := Some mtext,
                  fname := Some (joinpath (folder s) p), fpath := Some p,
                  fileidx := Some (fidx - nc)\<rparr>) (log @ ws @ xs)"
proof -
  from assms obtain it where it: "lookup_item (w log) filename = Inr it"
    by (auto simp: present_step_def bind_Inr_iff)
  show ?thesis
  proof (cases "a_blob it = None \<and> b_blob it = None")
    case True
    with assms it show ?thesis
      by (auto simp: present_step_def bind_Inr_iff intro: dropped)
  next
    case False
    let ?s1 = "s\<lparr>modtype := Some ''mod''\<rparr>"
    from assms it False obtain origtext difftext ws s2 mtext colored clean where
      o: "read_origtext it = Inr origtext"
      and d: "get_difftext (w log) origtext it (folder ?s1) = Inr (difftext, ws)"
      and c: "classify (w (log @ ws)) it [] origtext (color_diffs difftext) ?s1 = Inr (s2, mtext, colored)"
      and k: "(if strip origtext = strip mtext then key (skipcc s2) else Inr False) = Inr clean"
      and r: "(if clean then
            bind (key (addcc s2)) (\<lambda>stage.
              if stage then
                bind (pop_idx (difflist s2) (skip s2 + fidx)) (\<lambda>l.
                bind (perform w (GitAdd (str_path filename)) (log @ ws)) (\<lambda>log2.
                  Inr (Continue (s2\<lparr>difflist := l\<rparr>) log2 (nc + 1))))
              else Inr (Continue (s2\<lparr>skip := skip s2 + 1\<rparr>) (log @ ws) (nc + 1)))
          else present_file w h it origtext mtext difftext colored
                      fidx nc s2 (log @ ws)) = Inr out"
      by (auto simp: present_step_def bind_Inr_iff Let_def)
    from get_difftext_warnings [OF d] have w: "list_all is_warning ws" .
    from classify_no_merge [OF c] obtain mt where mt: "mt \<in> file_types" "s2 = s\<lparr>modtype := Some mt\<rparr>"
      by auto
    show ?thesis
    proof (cases clean)
      case True
      with k have scc: "skipcc s = Some True"
        using mt(2) by (auto simp: key_Inr_iff split: if_splits)
      from True r obtain stage where st: "addcc s = Some stage"
        using mt(2) by (auto simp: bind_Inr_iff key_Inr_iff)
      show ?thesis
      proof (cases stage)
        case True
        with \<open>clean\<close> r st mt obtain l where
          "pop_idx (difflist s) (skip s + fidx) = Inr l"
          "out = Continue (s\<lparr>modtype := Some mt, difflist := l\<rparr>)
                   (log @ ws @ [GitAdd (str_path filename)]) (nc + 1)"
          by (auto simp: bind_Inr_iff key_Inr_iff perform_Inr_iff)
        with True st mt w scc show ?thesis by (auto intro: staged)
      next
        case False
        with \<open>clean\<close> r st mt have
          "out = Continue (s\<lparr>modtype := Some mt, skip := skip s + 1\<rparr>) (log @ ws) (nc + 1)"
          by (auto simp: bind_Inr_iff key_Inr_iff)
        with False st mt w scc show ?thesis by (auto intro: passed)
      qed
    next
      case False
      with r mt obtain images log1 args where
        i: "image_context w (folder s) (joinpath (folder s) (a_path it)) (log @ ws) = Inr (images, log1)"
        and o: "out = Present (ReviewPage args)
          (s\<lparr>modtype := Some mt, modtext := Some mtext,
             fname := Some (joinpath (folder s) (a_path it)), fpath := Some (a_path it),
             fileidx := Some (fidx - nc)\<rparr>) log1"
        by (auto simp: present_file_def Let_def bind_Inr_iff)
      from image_context_effects [OF i] obtain xs where "log1 = (log @ ws) @ xs"
        "list_all is_image_effect xs" by blast
      with o mt w show ?thesis by (auto intro: shown)
    qed
  qed
qed

lemma present_loop_preserves:
  assumes step: "\<And>fidx f nc s log s1 log1 nc1. P s log \<Longrightarrow>
        present_step w dh fidx f nc s log = Inr (Continue s1 log1 nc1) \<Longrightarrow> P s1 log1"
    and shown: "\<And>fidx f nc s log s1 log1 pg. P s log \<Longrightarrow>
        present_step w dh fidx f nc s log = Inr (Present pg s1 log1) \<Longrightarrow> P s1 log1"
    and "P s log" "present_loop w dh fs fidx nc s log = Inr (pgo, s1, log1)"
  shows "P s1 log1"
  using assms(3,4)
proof (induction fs arbitrary: fidx nc s log)
  case Nil
  then show ?case by simp
next
  case (Cons f fs)
  from Cons.prems(2) obtain out where out: "present_step w dh fidx f nc s log = Inr out"
    by (auto split: sum.splits)
  show ?case
  proof (cases out)
    case (Continue s2 log2 nc2)
    with out Cons.prems(2) have "present_loop w dh fs (fidx + 1) nc2 s2 log2 = Inr (pgo, s1, log1)"
      by simp
    moreover have "P s2 log2" using step [OF Cons.prems(1)] out Continue by simp
    ultimately show ?thesis by (rule Cons.IH [rotated])
  next
    case (Present pg s2 log2)
    with out Cons.prems(2) have "s1 = s2" "log1 = log2" by simp_all
    with shown [OF Cons.prems(1)] out Present show ?thesis by simp
  qed
qed

lemma gtcheck_preserves:
  assumes step: "\<And>dh fidx f nc s log s1 log1 nc1. P s log \<Longrightarrow>
        present_step w dh fidx f nc s log = Inr (Continue s1 log1 nc1) \<Longrightarrow> P s1 log1"
    and shown: "\<And>dh fidx f nc s log s1 log1 pg. P s log \<Longrightarrow>
        present_step w dh fidx f nc s log = Inr (Present pg s1 log1) \<Longrightarrow> P s1 log1"
    and refill: "\<And>v s log. P s log \<Longrightarrow> P (refill v s) log"
    and reset: "\<And>s log. P s log \<Longrightarrow> P (s\<lparr>skip := 0\<rparr>) log"
    and fin: "\<And>s log. P s log \<Longrightarrow> P (s\<lparr>difflen := skip s\<rparr>) log"
    and "P s log" "gtcheck depth w s log = Inr (pg, s1, log1)"
  shows "P s1 log1"
  using assms(6,7)
proof (induction depth arbitrary: s log)
  case 0
  then show ?case by simp
next
  case (Suc depth)
  let ?dh = "read_head (w log)"
  let ?s0 = "refill (w log) s"
  from Suc.prems(2) obtain pgo s2 log2 where
    loop: "present_loop w ?dh (slice_from (skip ?s0) (difflist ?s0)) 0 0 ?s0 log = Inr (pgo, s2, log2)"
    by (auto simp: Let_def split: sum.splits)
  have p2: "P s2 log2"
    by (rule present_loop_preserves [where P = P, OF step shown refill [OF Suc.prems(1)] loop])
  show ?case
  proof (cases pgo)
    case (Some pg')
    with loop Suc.prems(2) p2 show ?thesis by (simp add: Let_def)
  next
    case None
    show ?thesis
    proof (cases "head_diff ?dh \<noteq> []")
      case True
      with None loop Suc.prems(2) fin [OF p2] show ?thesis by (auto simp: Let_def)
    next
      case dh: False
      show ?thesis
      proof (cases "difflist s2 = []")
        case True
        with dh None loop Suc.prems(2) p2 show ?thesis by (auto simp: Let_def)
      next
        case False
        with dh None loop Suc.prems(2) have "gtcheck depth w (s2\<lparr>skip := 0\<rparr>) log2 = Inr (pg, s1, log1)"
          by (simp add: Let_def)
        from Suc.IH [OF reset [OF p2] this] show ?thesis .
      qed
    qed
  qed
qed

lemma commit_messages_append [simp]:
  "commit_messages (xs @ ys) = commit_messages xs @ commit_messages ys"
  by (simp add: commit_messages_def)

lemma commit_messages_simps [simp]:
  "commit_messages [] = []"
  "commit_messages (GitCommit m # es) = m # commit_messages es"
  "commit_messages (GitAdd p # es) = commit_messages es"
  "commit_messages (GitReset p # es) = commit_messages es"
  "commit_messages (GitRm p # es) = commit_messages es"
  "commit_messages (GitCheckout p # es) = commit_messages es"
  "commit_messages (WriteFile p c # es) = commit_messages es"
  "commit_messages (SetConfig k x # es) = commit_messages es"
  "commit_messages (WriteReservation rf # es) = commit_messages es"
  "commit_messages (Symlink l t # es) = commit_messages es"
  "commit_messages (LogWarning p # es) = commit_messages es"
  "commit_messages (LogInfo p # es) = commit_messages es"
  by (simp_all add: commit_messages_def)





lemma gtcheck_log_prefix:
  assumes "gtcheck depth w s log = Inr (pg, s1, log1)"
  shows "prefix log log1"
proof -
  have step: "\<And>h fidx f nc s l out. prefix log l \<Longrightarrow> present_step w h fidx f nc s l = Inr out \<Longrightarrow>
      (case out of Continue s1 l1 nc1 \<Rightarrow> prefix log l1 | Present pg s1 l1 \<Rightarrow> prefix log l1)"
  proof -
    fix h fidx f nc s l out
    assume p: "prefix log l" and st: "present_step w h fidx f nc s l = Inr out"
    from st show "case out of Continue s1 l1 nc1 \<Rightarrow> prefix log l1 | Present pg s1 l1 \<Rightarrow> prefix log l1"
      by (cases rule: present_step_cases) (use p in \<open>auto intro: prefix_order.trans\<close>)
  qed
  have "prefix log log" by simp
  from gtcheck_preserves [where P = "\<lambda>s l. prefix log l", OF _ _ _ _ _ this assms]
  show ?thesis using step by fastforce
qed

lemma pop_current_result:
  "pop_current s log = Inr (s1, log1) \<Longrightarrow>
   log1 = log \<and> (\<exists>fi l. fileidx s = Some fi \<and> pop_idx (difflist s) (skip s + fi) = Inr l
                    \<and> s1 = s\<lparr>difflist := l\<rparr>)"
  by (auto simp: pop_current_def bind_Inr_iff key_Inr_iff)

lemma write_back_result:
  "write_back w path mtext stored s log = Inr l \<Longrightarrow>
   l = log \<or> l = log @ [WriteFile path mtext]"
  by (auto simp: write_back_def bind_Inr_iff perform_Inr_iff split: if_splits)

lemma undo_part_result:
  assumes "(if truthy_path (form_undo data)
           then bind (perform_all w (undo_effects s1) log1) (\<lambda>l.
                  Inr (s1\<lparr>difflen := difflen s1 + 1\<rparr>, l))
           else Inr (s1, log1)) = Inr (s2, log2)"
  shows "(truthy_path (form_undo data) \<longrightarrow>
            s2 = s1\<lparr>difflen := difflen s1 + 1\<rparr> \<and> log2 = log1 @ undo_effects s1)
       \<and> (\<not> truthy_path (form_undo data) \<longrightarrow> s2 = s1 \<and> log2 = log1)"
  using assms by (auto simp: bind_Inr_iff dest!: perform_all_Inr split: if_splits)

text \<open>
  The decision part unfolded: the effects before the branch on the selection, and the
  branch.
\<close>

lemma edit_decision_unfold:
  assumes "edit_decision w data s log = Inr (s9, log9)"
  obtains fp stored s3 log2 where
    "fpath s = Some fp" "modtext s = Some stored"
    "log2 = log @ config_effects data
              @ (if truthy_path (form_undo data) then undo_effects s else [])"
    "s3 = s\<lparr>vkeylang := form_vkeylang data,
              difflen := difflen s + (if truthy_path (form_undo data) then 1 else 0),
              undo_fpath := joinpath (folder s) fp, undo_value := stored\<rparr>"
    "(if form_selection data = ''commit'' then
       bind (if difflen s3 - skip s3 \<noteq> 0 then
               bind (write_back w (joinpath (folder s) fp)
                       (replace crlf [newline] (form_modtext data)) stored s3 log2) (\<lambda>log3.
               bind (perform w (GitAdd (joinpath (folder s) fp)) log3) (\<lambda>log4.
               let rf = (reservefile s3)\<lparr>Dateien_bearbeitet :=
                            Dateien_gesamt (reservefile s3) - difflen s3\<rparr> in
               bind (perform w (WriteReservation rf) log4) (\<lambda>log5.
                 Inr (s3\<lparr>reservefile := rf\<rparr>, log5))))
             else Inr (s3, log2))
         (\<lambda>(s4, log4).
       bind (perform w (GitCommit (form_commitmsg data)) log4) (\<lambda>log5.
         pop_current (s4\<lparr>difflist := [], difflen := difflen s4 - 1\<rparr>) log5))
     else if form_selection data = ''stash'' then
       bind (key (modtype s3)) (\<lambda>mt.
       bind (perform w (if mt = ''new'' then GitRm (joinpath (folder s) fp)
                        else GitCheckout (joinpath (folder s) fp)) log2) (\<lambda>log3.
       let rf = (reservefile s3)\<lparr>Dateien_gesamt := Dateien_gesamt (reservefile s3) - 1\<rparr> in
       bind (perform w (WriteReservation rf) log3) (\<lambda>log4.
         pop_current (s3\<lparr>reservefile := rf\<rparr>) log4)))
     else if form_selection data = ''add'' then
       bind (write_back w (joinpath (folder s) fp)
               (replace crlf [newline] (form_modtext data)) stored s3 log2) (\<lambda>log3.
       bind (perform w (GitAdd (joinpath (folder s) fp)) log3) (\<lambda>log4.
         pop_current (s3\<lparr>difflen := difflen s3 - 1\<rparr>) log4))
     else Inr (s3\<lparr>skip := skip s3 + 1\<rparr>, log2)) = Inr (s9, log9)"
proof -
  from assms obtain fp where fp: "fpath s = Some fp"
    by (auto simp: edit_decision_def bind_Inr_iff key_Inr_iff)
  let ?s1 = "s\<lparr>vkeylang := form_vkeylang data\<rparr>"
  from assms fp obtain log1 s2 log2 stored where
    c: "perform_all w (config_effects data) log = Inr log1"
    and u: "(if truthy_path (form_undo data)
           then bind (perform_all w (undo_effects ?s1) log1) (\<lambda>l.
                  Inr (?s1\<lparr>difflen := difflen ?s1 + 1\<rparr>, l))
           else Inr (?s1, log1)) = Inr (s2, log2)"
    and m: "modtext s2 = Some stored"
    by (auto simp: edit_decision_def bind_Inr_iff key_Inr_iff Let_def)
  from undo_part_result [OF u] perform_all_Inr [OF c]
  have s2: "s2 = ?s1\<lparr>difflen := difflen s + (if truthy_path (form_undo data) then 1 else 0)\<rparr>"
    and l2: "log2 = log @ config_effects data
              @ (if truthy_path (form_undo data) then undo_effects s else [])"
    by (auto simp: undo_effects_def)
  from m s2 have st: "modtext s = Some stored" by simp
  show ?thesis
    by (rule that [OF fp st l2 refl])
       (use assms fp c u m s2 in \<open>simp add: edit_decision_def bind_def key_def Let_def\<close>)
qed

section \<open>The requests of the examples\<close>

lemma session_after_Some:
  "session_after r = Some (s, l) \<Longrightarrow> \<exists>pg. r = Inr (pg, s, l)"
  by (auto simp: session_after_def split: sum.splits)

lemma world0_quiet: "\<forall>l e. \<not> raises (world0 l) e"
  by (simp add: world0_def)

lemma run_open: "gtcheck 1 world0 (init_session ''/d/r'' rf0) [] = Inr (page_a, session_a, log_a)"
  by code_simp


lemma run_add:
  "session_after (gtcheckedit 1 world0 form_add session_a log_a) = Some (session_b, log_add)"
  by code_simp

lemma run_undo:
  "session_after (gtcheckedit 1 world0 undo_form session_b log_add) = Some (session_c, log_c)"
  by code_simp

lemma run_second_undo:
  "session_after (gtcheckedit 2 world0 undo_form session_c log_c) = Some (session_d, log_d)"
  by code_simp

lemma run_first_page_undo: "gtcheckedit 1 world0 undo_form session_a log_a = Inl OtherError"
  by code_simp

lemma run_clean_copy: "gtcheck 1 world_c (init_session ''/d/c'' rf1) [] = Inl KeyError"
  by code_simp

lemma run_unreadable: "gtcheck 1 (world_u None) (init_session ''/d/u'' rf1) [] = Inl OtherError"
  by code_simp

lemma run_undecodable:
  "gtcheck 1 (world_u (Some ''Baz'')) (init_session ''/d/u'' rf1) []
     = Inr (page_u, session_u,
            [LogWarning ''0001.gt.txt'', LogWarning ''0001.gt.txt'',
             Symlink ''static/symlink/u'' ''/d/u''])"
  by code_simp

section \<open>The commit decision\<close>





lemma perform_all_quiet:
  assumes "\<forall>l e. \<not> raises (w l) e" and "\<forall>e \<in> set es. \<not> empty_target e"
  shows "perform_all w es log = Inr (log @ es)"
  using assms(2)
proof (induction es arbitrary: log)
  case Nil
  then show ?case by simp
next
  case (Cons e es)
  with assms(1) show ?case by (simp add: perform_def bind_def)
qed

lemma joinpath_not_empty [simp]: "joinpath d p \<noteq> []"
  by (simp add: joinpath_def)

lemma config_effects_targets: "\<forall>e \<in> set (config_effects data). \<not> empty_target e"
  by (simp add: config_effects_def empty_target_def)

lemma undo_effects_targets:
  "undo_fpath s \<noteq> [] \<Longrightarrow> \<forall>e \<in> set (undo_effects s). \<not> empty_target e"
  by (simp add: undo_effects_def empty_target_def)

lemma write_back_quiet:
  assumes "\<forall>l e. \<not> raises (w l) e" and "modtype s = Some mt" and "path \<noteq> []"
  shows "\<exists>l. write_back w path mtext stored s log = Inr l"
  using assms by (simp add: write_back_def perform_def empty_target_def bind_def key_def)






section \<open>The modification type\<close>

lemma present_step_known_type:
  assumes "present_step w h fidx f nc s log = Inr out" "known_type s"
  shows "case out of Continue s1 log1 nc1 \<Rightarrow> known_type s1 | Present pg s1 log1 \<Rightarrow> known_type s1"
  using assms
  by (cases rule: present_step_cases) (auto simp: known_type_def)

lemma refill_modtype: "modtype (refill v s) = modtype s"
  by (simp add: refill_def Let_def)

lemma gtcheck_known_type:
  assumes "gtcheck depth w s log = Inr (pg, s1, log1)" "known_type s"
  shows "known_type s1"
proof -
  from gtcheck_preserves [where P = "\<lambda>s l. known_type s", OF _ _ _ _ _ assms(2) assms(1)]
  show ?thesis using present_step_known_type
    by (fastforce simp: known_type_def refill_modtype)
qed

lemma edit_decision_modtype:
  assumes "edit_decision w data s log = Inr (s1, log1)"
  shows "modtype s1 = modtype s"
  using assms
proof (cases rule: edit_decision_unfold)
  case (1 fp stored s3 log2)
  from 1(5) have "modtype s1 = modtype s3"
    by (auto simp: bind_Inr_iff Let_def split: if_splits dest!: pop_current_result)
  with 1(4) show ?thesis by simp
qed

lemma gtcheckedit_cases:
  assumes "gtcheckedit depth w data s log = Inr (pg, s1, log1)"
  obtains (finished) l where "difflen s - skip s = 0"
      "gtcheck depth w (s\<lparr>difflist := []\<rparr>) l = Inr (pg, s1, log1)"
    | (decide) s2 log2 where "difflen s - skip s \<noteq> 0"
      "edit_decision w data s log = Inr (s2, log2)"
      "gtcheck depth w s2 log2 = Inr (pg, s1, log1)"
  using assms by (auto simp: gtcheckedit_def bind_Inr_iff split: if_splits)

lemma gtcheckedit_known_type:
  assumes "gtcheckedit depth w data s log = Inr (pg, s1, log1)" "known_type s"
  shows "known_type s1"
  using assms(1)
proof (cases rule: gtcheckedit_cases)
  case (finished l)
  moreover have "known_type (s\<lparr>difflist := []\<rparr>)" using assms(2) by (simp add: known_type_def)
  ultimately show ?thesis by (auto intro: gtcheck_known_type)
next
  case (decide s2 log2)
  from edit_decision_modtype [OF decide(2)] assms(2) have "known_type s2"
    by (simp add: known_type_def)
  with decide(3) show ?thesis by (rule gtcheck_known_type)
qed

lemma reachable_known_type: "reachable s \<Longrightarrow> known_type s"
proof (induction rule: reachable.induct)
  case (start dir rf)
  show ?case by (simp add: known_type_def init_session_def)
next
  case (check s depth w log pg s1 log1)
  then show ?case by (auto intro: gtcheck_known_type)
next
  case (edit s depth w data log pg s1 log1)
  then show ?case by (auto intro: gtcheckedit_known_type)
qed

text \<open>
  C9: \<^verbatim>\<open>gtcheck\<close> hands its local list \<^verbatim>\<open>mergetext\<close>, which is empty, to the chain that
  fixes the type, so the branch for \<^verbatim>\<open>merge\<close> is never taken: in no session the program
  can be in is the stored type \<^verbatim>\<open>merge\<close>, and a pass through the loop leaves the stored
  type as it was (an entry without blobs) or stores \<^verbatim>\<open>mod\<close>, \<^verbatim>\<open>new\<close> or \<^verbatim>\<open>del\<close>.
\<close>

theorem modtype_never_merge:
  assumes "reachable s"
  shows "modtype s \<noteq> Some ''merge''
       \<and> (present_step w dh fidx f nc s log = Inr out \<longrightarrow>
            (case out of
               Continue s1 log1 nc1 \<Rightarrow> modtype s1 = modtype s \<or> modtype s1 \<in> Some ` file_types
             | Present pg s1 log1 \<Rightarrow> modtype s1 \<in> Some ` file_types))"
proof (intro conjI impI)
  show "modtype s \<noteq> Some ''merge''"
    using reachable_known_type [OF assms] by (auto simp: known_type_def file_types_def)
next
  assume "present_step w dh fidx f nc s log = Inr out"
  then show "case out of
               Continue s1 log1 nc1 \<Rightarrow> modtype s1 = modtype s \<or> modtype s1 \<in> Some ` file_types
             | Present pg s1 log1 \<Rightarrow> modtype s1 \<in> Some ` file_types"
    by (cases rule: present_step_cases) auto
qed

theorem modtype_never_merge_witness:
  "reachable session_a \<and> modtype session_a = Some ''mod'' \<and> modtype session_a \<noteq> Some ''merge''
   \<and> present_step world0 (read_head (world0 [])) 0 (Some ''0001.gt.txt'') 0 session_a []
       = Inr (Present page_a session_a log_a)
   \<and> modtype session_a \<in> Some ` file_types"
proof -
  have r: "reachable session_a" by (rule reachable.check [OF reachable.start run_open])
  have p: "present_step world0 (read_head (world0 [])) 0 (Some ''0001.gt.txt'') 0 session_a []
      = Inr (Present page_a session_a log_a)"
    by code_simp
  from modtype_never_merge [OF r, of world0 "read_head (world0 [])" 0 "Some ''0001.gt.txt''" 0 "[]"
      "Present page_a session_a log_a"] r p
  show ?thesis by (simp add: session_a_def)
qed

section \<open>The keys for clean copies\<close>

lemma present_step_no_toggles:
  assumes "present_step w h fidx f nc s log = Inr out" "no_toggles s"
  shows "case out of Continue s1 log1 nc1 \<Rightarrow> no_toggles s1 | Present pg s1 log1 \<Rightarrow> no_toggles s1"
  using assms
  by (cases rule: present_step_cases) (auto simp: no_toggles_def)

lemma refill_toggles: "skipcc (refill v s) = skipcc s" "addcc (refill v s) = addcc s"
  by (simp_all add: refill_def Let_def)

lemma gtcheck_no_toggles:
  assumes "gtcheck depth w s log = Inr (pg, s1, log1)" "no_toggles s"
  shows "no_toggles s1"
proof -
  from gtcheck_preserves [where P = "\<lambda>s l. no_toggles s", OF _ _ _ _ _ assms(2) assms(1)]
  show ?thesis using present_step_no_toggles
    by (fastforce simp: no_toggles_def refill_toggles)
qed

lemma edit_decision_toggles:
  assumes "edit_decision w data s log = Inr (s1, log1)"
  shows "skipcc s1 = skipcc s \<and> addcc s1 = addcc s"
  using assms
proof (cases rule: edit_decision_unfold)
  case (1 fp stored s3 log2)
  from 1(5) have "skipcc s1 = skipcc s3 \<and> addcc s1 = addcc s3"
    by (auto simp: bind_Inr_iff Let_def split: if_splits dest!: pop_current_result)
  with 1(4) show ?thesis by simp
qed

lemma gtcheckedit_no_toggles:
  assumes "gtcheckedit depth w data s log = Inr (pg, s1, log1)" "no_toggles s"
  shows "no_toggles s1"
  using assms(1)
proof (cases rule: gtcheckedit_cases)
  case (finished l)
  moreover have "no_toggles (s\<lparr>difflist := []\<rparr>)" using assms(2) by (simp add: no_toggles_def)
  ultimately show ?thesis by (auto intro: gtcheck_no_toggles)
next
  case (decide s2 log2)
  from edit_decision_toggles [OF decide(2)] assms(2) have "no_toggles s2"
    by (simp add: no_toggles_def)
  with decide(3) show ?thesis by (rule gtcheck_no_toggles)
qed

lemma reachable_no_toggles: "reachable s \<Longrightarrow> no_toggles s"
proof (induction rule: reachable.induct)
  case (start dir rf)
  show ?case by (simp add: no_toggles_def init_session_def)
next
  case (check s depth w log pg s1 log1)
  then show ?case by (auto intro: gtcheck_no_toggles)
next
  case (edit s depth w data log pg s1 log1)
  then show ?case by (auto intro: gtcheckedit_no_toggles)
qed

section \<open>The undo\<close>

lemma edit_decision_undo:
  assumes "truthy_path (form_undo data)" "edit_decision w data s log = Inr (s1, log1)"
  shows "prefix (log @ config_effects data @ undo_effects s) log1
       \<and> undo_fpath s \<noteq> []
       \<and> difflen s1 = difflen s + 1
           - (if form_selection data = ''commit'' \<or> form_selection data = ''add'' then 1 else 0)"
proof -
  from assms(2) obtain fp log0 l where "fpath s = Some fp"
    and "perform_all w (config_effects data) log = Inr log0"
    and u: "perform_all w (undo_effects (s\<lparr>vkeylang := form_vkeylang data\<rparr>)) log0 = Inr l"
    using assms(1) by (auto simp: edit_decision_def bind_Inr_iff key_Inr_iff Let_def)
  from u have n: "undo_fpath s \<noteq> []"
    by (auto simp: undo_effects_def bind_Inr_iff perform_Inr_iff empty_target_def)
  from assms(2) show ?thesis
  proof (cases rule: edit_decision_unfold)
    case (1 fp stored s3 log2)
    from 1(5) have "prefix log2 log1 \<and> difflen s1 = difflen s3
           - (if form_selection data = ''commit'' \<or> form_selection data = ''add'' then 1 else 0)"
      by (auto simp: bind_Inr_iff perform_Inr_iff key_Inr_iff Let_def
          dest!: write_back_result pop_current_result split: if_splits)
    with 1(3,4) assms(1) n show ?thesis by simp
  qed
qed

lemma edit_decision_first_undo:
  assumes "truthy_path (form_undo data)" "undo_fpath s = []" "fpath s = Some fp"
  shows "edit_decision w data s log = Inl OtherError"
proof -
  have u: "\<And>l. perform_all w (undo_effects (s\<lparr>vkeylang := form_vkeylang data\<rparr>)) l = Inl OtherError"
    using assms(2) by (simp add: undo_effects_def perform_def empty_target_def bind_def)
  have c: "perform_all w (config_effects data) log = Inl OtherError
         \<or> (\<exists>l. perform_all w (config_effects data) log = Inr l)"
    by (auto simp: config_effects_def perform_def bind_def)
  then show ?thesis
    using assms(1,3) u by (auto simp: edit_decision_def bind_def key_def Let_def)
qed

lemma pop_idx_at:
  "0 \<le> i \<Longrightarrow>
   pop_idx l i = Inr (if i < int (length l) then take (nat i) l @ drop (Suc (nat i)) l else l)"
  by (auto simp: pop_idx_def list_pop_def Let_def)

lemma pop_current_at:
  "fileidx s = Some fi \<Longrightarrow> 0 \<le> skip s + fi \<Longrightarrow>
   pop_current s log =
     Inr (s\<lparr>difflist := (if skip s + fi < int (length (difflist s))
                           then take (nat (skip s + fi)) (difflist s)
                                  @ drop (Suc (nat (skip s + fi))) (difflist s)
                           else difflist s)\<rparr>, log)"
  by (simp add: pop_current_def bind_def key_def pop_idx_at)

lemma edit_decision_returns:
  assumes keys: "fpath s = Some fp" "modtext s = Some stored" "modtype s = Some mt"
      "fileidx s = Some fi"
    and idx: "0 \<le> skip s + fi"
    and undo: "truthy_path (form_undo data) \<longrightarrow> undo_fpath s \<noteq> []"
    and quiet: "\<forall>l e. \<not> raises (w l) e"
  shows "\<exists>s1 log1. edit_decision w data s log = Inr (s1, log1)"
proof -
  let ?path = "joinpath (folder s) fp"
  let ?mtext = "replace crlf [newline] (form_modtext data)"
  let ?s1 = "s\<lparr>vkeylang := form_vkeylang data\<rparr>"
  have c: "perform_all w (config_effects data) log = Inr (log @ config_effects data)"
    by (rule perform_all_quiet [OF quiet config_effects_targets])
  have u: "truthy_path (form_undo data) \<Longrightarrow>
      perform_all w (undo_effects ?s1) (log @ config_effects data)
        = Inr (log @ config_effects data @ undo_effects ?s1)"
    using perform_all_quiet [OF quiet undo_effects_targets [of ?s1]] undo by simp
  define s2 where "s2 = (if truthy_path (form_undo data) then ?s1\<lparr>difflen := difflen ?s1 + 1\<rparr> else ?s1)"
  define log2 where "log2 = log @ config_effects data
      @ (if truthy_path (form_undo data) then undo_effects ?s1 else [])"
  define s3 where "s3 = s2\<lparr>undo_fpath := ?path, undo_value := stored\<rparr>"
  have s3: "modtype s3 = Some mt" "fileidx s3 = Some fi" "skip s3 = skip s"
    by (simp_all add: s3_def s2_def keys)
  obtain l3 where l3: "write_back w ?path ?mtext stored s3 log2 = Inr l3"
    using write_back_quiet [OF quiet s3(1), of ?path ?mtext stored log2] by auto
  have e: "edit_decision w data s log =
     (if form_selection data = ''commit'' then
       bind (if difflen s3 - skip s3 \<noteq> 0 then
               bind (write_back w ?path ?mtext stored s3 log2) (\<lambda>log3.
               bind (perform w (GitAdd ?path) log3) (\<lambda>log4.
               let rf = (reservefile s3)\<lparr>Dateien_bearbeitet :=
                            Dateien_gesamt (reservefile s3) - difflen s3\<rparr> in
               bind (perform w (WriteReservation rf) log4) (\<lambda>log5.
                 Inr (s3\<lparr>reservefile := rf\<rparr>, log5))))
             else Inr (s3, log2))
         (\<lambda>(s4, log4).
       bind (perform w (GitCommit (form_commitmsg data)) log4) (\<lambda>log5.
         pop_current (s4\<lparr>difflist := [], difflen := difflen s4 - 1\<rparr>) log5))
     else if form_selection data = ''stash'' then
       bind (key (modtype s3)) (\<lambda>mt.
       bind (perform w (if mt = ''new'' then GitRm ?path else GitCheckout ?path) log2) (\<lambda>log3.
       let rf = (reservefile s3)\<lparr>Dateien_gesamt := Dateien_gesamt (reservefile s3) - 1\<rparr> in
       bind (perform w (WriteReservation rf) log3) (\<lambda>log4.
         pop_current (s3\<lparr>reservefile := rf\<rparr>) log4)))
     else if form_selection data = ''add'' then
       bind (write_back w ?path ?mtext stored s3 log2) (\<lambda>log3.
       bind (perform w (GitAdd ?path) log3) (\<lambda>log4.
         pop_current (s3\<lparr>difflen := difflen s3 - 1\<rparr>) log4))
     else Inr (s3\<lparr>skip := skip s3 + 1\<rparr>, log2))"
    using c u
    by (simp add: edit_decision_def keys bind_def key_def Let_def s3_def s2_def log2_def
        cong: sum.case_cong prod.case_cong if_cong)
  show ?thesis
    unfolding e using quiet l3 s3 idx
    by (simp add: bind_def perform_def empty_target_def pop_current_at key_def Let_def)
qed

text \<open>
  C7, as the code has it: a request to undo is never rejected because of an undo before
  it. When the field \<^verbatim>\<open>undo\<close> of the form is set and the remaining count is not zero,
  a request that returns a page has found a stored path that is not empty, has unstaged
  it and written the stored text to it, whatever the request before was; the session
  keeps no record that an undo took place. The second part says that the decision part
  of the request does return, with the count raised by one, when the keys of the
  presented file are in the session, the stored path is not empty and no call raises.
  The third part is the first page after \<^verbatim>\<open>gtcheckinit\<close>, where the stored path is
  empty: the request fails.
\<close>

theorem undo_request_performed:
  assumes "truthy_path (form_undo data)" "difflen s - skip s \<noteq> 0"
  shows "(gtcheckedit depth w data s log = Inr (pg, s1, log1) \<longrightarrow>
            undo_fpath s \<noteq> [] \<and> prefix (log @ config_effects data @ undo_effects s) log1)
       \<and> (fpath s = Some fp \<and> modtext s = Some stored \<and> modtype s = Some mt
            \<and> fileidx s = Some fi \<and> 0 \<le> skip s + fi \<and> undo_fpath s \<noteq> []
            \<and> (\<forall>l e. \<not> raises (w l) e) \<longrightarrow>
            (\<exists>s2 log2. edit_decision w data s log = Inr (s2, log2)
               \<and> prefix (log @ config_effects data @ undo_effects s) log2
               \<and> difflen s2 = difflen s + 1
                   - (if form_selection data = ''commit'' \<or> form_selection data = ''add''
                      then 1 else 0)))
       \<and> (fpath s = Some fp \<and> undo_fpath s = [] \<longrightarrow>
            gtcheckedit depth w data s log = Inl OtherError)"
proof (intro conjI impI)
  assume r: "gtcheckedit depth w data s log = Inr (pg, s1, log1)"
  with assms(2) obtain s2 log2 where e: "edit_decision w data s log = Inr (s2, log2)"
    and g: "gtcheck depth w s2 log2 = Inr (pg, s1, log1)"
    by (auto simp: gtcheckedit_def bind_Inr_iff)
  from edit_decision_undo [OF assms(1) e] show "undo_fpath s \<noteq> []" by simp
  from edit_decision_undo [OF assms(1) e] gtcheck_log_prefix [OF g]
  show "prefix (log @ config_effects data @ undo_effects s) log1"
    by (auto intro: prefix_order.trans)
next
  assume k: "fpath s = Some fp \<and> modtext s = Some stored \<and> modtype s = Some mt
            \<and> fileidx s = Some fi \<and> 0 \<le> skip s + fi \<and> undo_fpath s \<noteq> []
            \<and> (\<forall>l e. \<not> raises (w l) e)"
  then obtain s2 log2 where e: "edit_decision w data s log = Inr (s2, log2)"
    using edit_decision_returns [of s fp stored mt fi data w log] by blast
  with edit_decision_undo [OF assms(1) e]
  show "\<exists>s2 log2. edit_decision w data s log = Inr (s2, log2)
               \<and> prefix (log @ config_effects data @ undo_effects s) log2
               \<and> difflen s2 = difflen s + 1
                   - (if form_selection data = ''commit'' \<or> form_selection data = ''add''
                      then 1 else 0)"
    by blast
next
  assume "fpath s = Some fp \<and> undo_fpath s = []"
  then have "edit_decision w data s log = Inl OtherError"
    using edit_decision_first_undo [OF assms(1), of s fp w log] by simp
  with assms(2) show "gtcheckedit depth w data s log = Inl OtherError"
    by (simp add: gtcheckedit_def bind_def)
qed

theorem undo_request_performed_witness:
  "session_after (gtcheckedit 1 world0 undo_form session_b log_add) = Some (session_c, log_c)
   \<and> prefix (log_add @ config_effects undo_form @ undo_effects session_b) log_c
   \<and> undo_effects session_b = [GitReset ''/d/r/0001.gt.txt'', WriteFile ''/d/r/0001.gt.txt'' ''Hat'']
   \<and> (\<exists>s2 log2. edit_decision world0 undo_form session_b log_add = Inr (s2, log2)
         \<and> difflen s2 = difflen session_b + 1)
   \<and> undo_fpath session_a = []
   \<and> gtcheckedit 1 world0 undo_form session_a log_a = Inl OtherError"
proof -
  from session_after_Some [OF run_undo] obtain pg where
    g: "gtcheckedit 1 world0 undo_form session_b log_add = Inr (pg, session_c, log_c)" ..
  have u: "truthy_path (form_undo undo_form)" by (simp add: undo_form_def truthy_path_def)
  have d: "difflen session_b - skip session_b \<noteq> 0"
    by (simp add: session_b_def session_a_def init_session_def)
  have k: "fpath session_b = Some ''0002.gt.txt''" "modtext session_b = Some ''y''"
    "modtype session_b = Some ''mod''" "fileidx session_b = Some 0" "0 \<le> skip session_b + 0"
    "undo_fpath session_b \<noteq> []" "form_selection undo_form = ''skip''"
    by (simp_all add: session_b_def session_a_def init_session_def undo_form_def)
  have e: "undo_effects session_b = [GitReset ''/d/r/0001.gt.txt'', WriteFile ''/d/r/0001.gt.txt'' ''Hat'']"
    by (simp add: undo_effects_def session_b_def)
  have a: "undo_fpath session_a = []" by (simp add: session_a_def init_session_def)
  from undo_request_performed [OF u d, of 1 world0 log_add pg session_c log_c
      "''0002.gt.txt''" "''y''" "''mod''" 0] g k world0_quiet
  have "prefix (log_add @ config_effects undo_form @ undo_effects session_b) log_c
     \<and> (\<exists>s2 log2. edit_decision world0 undo_form session_b log_add = Inr (s2, log2)
         \<and> difflen s2 = difflen session_b + 1)"
    by auto
  with run_undo e a run_first_page_undo show ?thesis by simp
qed

text \<open>
  Two requests to undo in a row, after the first file has been staged: the second one
  is performed like the first, it unstages the path stored by the first, writes the
  stored text and raises the count once more.
\<close>

theorem second_undo_performed:
  "session_after (gtcheck 1 world0 (init_session ''/d/r'' rf0) []) = Some (session_a, log_a)
   \<and> session_after (gtcheckedit 1 world0 form_add session_a log_a) = Some (session_b, log_add)
   \<and> session_after (gtcheckedit 1 world0 undo_form session_b log_add) = Some (session_c, log_c)
   \<and> session_after (gtcheckedit 2 world0 undo_form session_c log_c) = Some (session_d, log_d)
   \<and> log_d = log_c @ [SetConfig ''name'' ''GTChecker'', SetConfig ''email'' [],
         GitReset ''/d/r/0002.gt.txt'', WriteFile ''/d/r/0002.gt.txt'' ''y'', LogInfo ''0000.png'']
   \<and> difflen session_b = 1 \<and> difflen session_c = 2 \<and> difflen session_d = 3"
  using run_open run_add run_undo run_second_undo
  by (simp add: session_after_def log_d_def session_d_def session_c_def session_b_def
      session_a_def init_session_def)

section \<open>Files in the loop: a diff that does not decode, a clean copy\<close>

lemma color_diffs_Nil: "color_diffs [] = []"
  by (simp add: color_diffs_def replace.simps)

lemma classify_plain:
  assumes "\<not> deleted_file it" "b_path it = Some p" "p \<noteq> []"
    and "read_file v (joinpath (folder s) p) = Some m"
  shows "classify v it [] origtext colored s =
     Inr (if (origtext = [] \<or> new_file it) then s\<lparr>modtype := Some ''new''\<rparr> else s,
          lstrip_blank m,
          if (origtext = [] \<or> new_file it) then new_message else colored)"
  using assms
  by (simp add: classify_def Let_def truthy_path_def str_path_def)

lemma classify_unreadable:
  assumes "\<not> deleted_file it" "b_path it = Some p" "p \<noteq> []"
    and "read_file v (joinpath (folder s) p) = None"
  shows "classify v it [] origtext colored s = Inl OtherError"
  using assms
  by (simp add: classify_def Let_def truthy_path_def str_path_def split: prod.splits)

text \<open>
  C5, as the code has it: when the file has no conflict marker, the bytes of its patch
  do not decode and the fallback comparison fails as well, \<^verbatim>\<open>get_difftext\<close> returns the
  empty diff text and logs two warnings for the file, and no error leaves it. The file
  is then shown to the reviewer with its two texts and an empty diff (or the note for a
  new file) when it is not deleted, its working text can be read, the two stripped
  texts differ and the lookup of the images returns.
\<close>

theorem undecodable_diff_still_shown:
  assumes "\<not> contains conflict_head (lstrip_blank t)"
    and "diff it = None"
    and "fallback_difftext (w log) (lstrip_blank t) it = Inl e"
  shows "get_difftext (w log) (lstrip_blank t) it (folder s)
           = Inr ([], [LogWarning (a_path it), LogWarning (a_path it)])
       \<and> (lookup_item (w log) filename = Inr it \<and> a_blob it = Some (Some t)
            \<and> \<not> deleted_file it \<and> b_path it = Some p \<and> p \<noteq> []
            \<and> read_file (w (log @ [LogWarning (a_path it), LogWarning (a_path it)]))
                 (joinpath (folder s) p) = Some m
            \<and> strip (lstrip_blank t) \<noteq> strip (lstrip_blank m)
            \<and> image_context w (folder s) (joinpath (folder s) (a_path it))
                 (log @ [LogWarning (a_path it), LogWarning (a_path it)]) = Inr (images, log2)
          \<longrightarrow> (\<exists>args s1. present_step w h fidx filename nc s log
                   = Inr (Present (ReviewPage args) s1 log2)
                 \<and> arg_origtext args = lstrip_blank t \<and> arg_modtext args = lstrip_blank m
                 \<and> arg_difftext args
                     = (if lstrip_blank t = [] \<or> new_file it then new_message else [])))"
proof (intro conjI impI)
  let ?ws = "[LogWarning (a_path it), LogWarning (a_path it)]"
  let ?s1 = "s\<lparr>modtype := Some ''mod''\<rparr>"
  show g: "get_difftext (w log) (lstrip_blank t) it (folder s) = Inr ([], ?ws)"
    using assms by (simp add: get_difftext_def)
  assume k: "lookup_item (w log) filename = Inr it \<and> a_blob it = Some (Some t)
            \<and> \<not> deleted_file it \<and> b_path it = Some p \<and> p \<noteq> []
            \<and> read_file (w (log @ ?ws)) (joinpath (folder s) p) = Some m
            \<and> strip (lstrip_blank t) \<noteq> strip (lstrip_blank m)
            \<and> image_context w (folder s) (joinpath (folder s) (a_path it)) (log @ ?ws)
                 = Inr (images, log2)"
  from k have it: "lookup_item (w log) filename = Inr it" and ab: "a_blob it = Some (Some t)"
    and nd: "\<not> deleted_file it" and bp: "b_path it = Some p" and pn: "p \<noteq> []"
    and rf: "read_file (w (log @ ?ws)) (joinpath (folder s) p) = Some m"
    and df: "strip (lstrip_blank t) \<noteq> strip (lstrip_blank m)"
    and im: "image_context w (folder s) (joinpath (folder s) (a_path it)) (log @ ?ws)
                 = Inr (images, log2)"
    by blast+
  have o: "read_origtext it = Inr (lstrip_blank t)"
    using ab by (simp add: read_origtext_def)
  from rf have rf': "read_file (w (log @ ?ws)) (joinpath (folder ?s1) p) = Some m" by simp
  have c: "classify (w (log @ ?ws)) it [] (lstrip_blank t) [] ?s1 =
     Inr (if (lstrip_blank t = [] \<or> new_file it) then ?s1\<lparr>modtype := Some ''new''\<rparr> else ?s1,
          lstrip_blank m,
          if (lstrip_blank t = [] \<or> new_file it) then new_message else [])"
    by (rule classify_plain [OF nd bp pn rf'])
  show "\<exists>args s1. present_step w h fidx filename nc s log
                   = Inr (Present (ReviewPage args) s1 log2)
                 \<and> arg_origtext args = lstrip_blank t \<and> arg_modtext args = lstrip_blank m
                 \<and> arg_difftext args
                     = (if lstrip_blank t = [] \<or> new_file it then new_message else [])"
    using g it ab df im o c
    by (simp add: present_step_def bind_def Let_def color_diffs_Nil present_file_def)
qed

theorem undecodable_diff_still_shown_witness:
  "get_difftext (world_u (Some ''Baz'') []) ''Bar'' item_u ''/d/u''
     = Inr ([], [LogWarning ''0001.gt.txt'', LogWarning ''0001.gt.txt''])
   \<and> (\<exists>args s1. present_step (world_u (Some ''Baz'')) (read_head (world_u (Some ''Baz'') [])) 0
          (Some ''0001.gt.txt'') 0 session_u []
        = Inr (Present (ReviewPage args) s1
                 [LogWarning ''0001.gt.txt'', LogWarning ''0001.gt.txt'',
                  Symlink ''static/symlink/u'' ''/d/u''])
        \<and> arg_origtext args = ''Bar'' \<and> arg_modtext args = ''Baz'' \<and> arg_difftext args = [])"
proof -
  let ?w = "world_u (Some ''Baz'')"
  have 1: "\<not> contains conflict_head (lstrip_blank ''Bar'')" by code_simp
  have 2: "diff item_u = None" by (simp add: item_u_def)
  have 3: "fallback_difftext (?w []) (lstrip_blank ''Bar'') item_u = Inl UnicodeDecodeError"
    by (simp add: fallback_difftext_def item_u_def)
  have l: "lstrip_blank ''Bar'' = ''Bar''" "lstrip_blank ''Baz'' = ''Baz''" by code_simp+
  have k: "lookup_item (?w []) (Some ''0001.gt.txt'') = Inr item_u"
    "a_blob item_u = Some (Some ''Bar'')" "\<not> deleted_file item_u"
    "b_path item_u = Some ''0001.gt.txt''" "a_path item_u = ''0001.gt.txt''"
    "\<not> new_file item_u" "folder session_u = ''/d/u''"
    by (simp_all add: lookup_item_def world_u_def one_file_world_def item_u_def session_u_def
        init_session_def)
  have r: "read_file (?w ([] @ [LogWarning ''0001.gt.txt'', LogWarning ''0001.gt.txt'']))
      (joinpath ''/d/u'' ''0001.gt.txt'') = Some ''Baz''"
    by (simp add: world_u_def one_file_world_def item_u_def)
  have d: "strip ''Bar'' \<noteq> strip ''Baz''" by code_simp
  have i: "image_context ?w ''/d/u'' (joinpath ''/d/u'' ''0001.gt.txt'')
      ([] @ [LogWarning ''0001.gt.txt'', LogWarning ''0001.gt.txt''])
    = Inr (None, [LogWarning ''0001.gt.txt'', LogWarning ''0001.gt.txt'',
                  Symlink ''static/symlink/u'' ''/d/u''])"
    by code_simp
  from undecodable_diff_still_shown [where t = "''Bar''" and it = item_u and w = ?w
      and log = "[]" and e = UnicodeDecodeError and s = session_u
      and filename = "Some ''0001.gt.txt''" and p = "''0001.gt.txt''" and m = "''Baz''"
      and images = None
      and ?log2.0 = "[LogWarning ''0001.gt.txt'', LogWarning ''0001.gt.txt'',
                  Symlink ''static/symlink/u'' ''/d/u'']"
      and h = "read_head (?w [])" and fidx = 0 and nc = 0, OF 1 2 3]
    k l r d i
  show ?thesis by simp
qed

text \<open>
  The same file when its working text cannot be read: the patch does not decode, the
  fallback fails, \<^verbatim>\<open>get_difftext\<close> returns the empty diff with its two warnings, and
  then the read of line 188 raises: the request ends with the error and no page.
\<close>

theorem undecodable_unreadable_fails:
  "diff item_u = None
   \<and> fallback_difftext (world_u None []) ''Bar'' item_u = Inl UnicodeDecodeError
   \<and> get_difftext (world_u None []) ''Bar'' item_u ''/d/u''
       = Inr ([], [LogWarning ''0001.gt.txt'', LogWarning ''0001.gt.txt''])
   \<and> gtcheck 1 (world_u None) (init_session ''/d/u'' rf1) [] = Inl OtherError"
proof -
  have "get_difftext (world_u None []) ''Bar'' item_u ''/d/u''
       = Inr ([], [LogWarning ''0001.gt.txt'', LogWarning ''0001.gt.txt''])"
    by code_simp
  with run_unreadable show ?thesis by (simp add: fallback_difftext_def item_u_def)
qed

text \<open>
  C6: the two keys \<^verbatim>\<open>skipcc\<close> and \<^verbatim>\<open>addcc\<close> are read by \<^verbatim>\<open>gtcheck\<close> and set nowhere, so
  they are in no session the program can be in; and for a file whose stripped original
  and working texts are equal the test of line 189 reads \<^verbatim>\<open>session['skipcc']\<close>: the
  pass through the loop ends with \<^verbatim>\<open>KeyError\<close>. The file is not passed over, the cursor
  is not moved and no page is returned.
\<close>

theorem clean_copy_raises_key_error:
  assumes "reachable s"
    and "lookup_item (w log) filename = Inr it"
    and "a_blob it = Some (Some t)"
    and "get_difftext (w log) (lstrip_blank t) it (folder s) = Inr (difftext, ws)"
    and "\<not> deleted_file it" "b_path it = Some p" "p \<noteq> []"
    and "read_file (w (log @ ws)) (joinpath (folder s) p) = Some m"
    and "strip (lstrip_blank t) = strip (lstrip_blank m)"
  shows "skipcc s = None \<and> addcc s = None
       \<and> present_step w h fidx filename nc s log = Inl KeyError"
proof -
  let ?s1 = "s\<lparr>modtype := Some ''mod''\<rparr>"
  from reachable_no_toggles [OF assms(1)] have n: "skipcc s = None" "addcc s = None"
    by (simp_all add: no_toggles_def)
  have o: "read_origtext it = Inr (lstrip_blank t)"
    using assms(3) by (simp add: read_origtext_def)
  have c: "classify (w (log @ ws)) it [] (lstrip_blank t) (color_diffs difftext) ?s1 =
     Inr (if (lstrip_blank t = [] \<or> new_file it) then ?s1\<lparr>modtype := Some ''new''\<rparr> else ?s1,
          lstrip_blank m,
          if (lstrip_blank t = [] \<or> new_file it) then new_message else color_diffs difftext)"
    by (rule classify_plain [OF assms(5,6,7)]) (use assms(8) in simp)
  have "present_step w h fidx filename nc s log = Inl KeyError"
    using assms(2,3,4,9) o c n
    by (simp add: present_step_def bind_def key_def Let_def)
  with n show ?thesis by simp
qed

theorem clean_copy_raises_key_error_witness:
  "reachable (init_session ''/d/c'' rf1)
   \<and> strip ''same'' = strip ''same ''
   \<and> present_step world_c (read_head (world_c [])) 0 (Some ''0001.gt.txt'') 0
       (init_session ''/d/c'' rf1) [] = Inl KeyError
   \<and> gtcheck 1 world_c (init_session ''/d/c'' rf1) [] = Inl KeyError"
proof -
  have r: "reachable (init_session ''/d/c'' rf1)" by (rule reachable.start)
  have k: "lookup_item (world_c []) (Some ''0001.gt.txt'') = Inr item_c"
    "a_blob item_c = Some (Some ''same'')" "\<not> deleted_file item_c"
    "b_path item_c = Some ''0001.gt.txt''" "''0001.gt.txt'' \<noteq> []"
    by (simp_all add: lookup_item_def world_c_def one_file_world_def item_c_def)
  have g: "get_difftext (world_c []) (lstrip_blank ''same'') item_c
      (folder (init_session ''/d/c'' rf1)) = Inr (''same{+ +}'', [])"
    by code_simp
  have f: "read_file (world_c ([] @ [])) (joinpath (folder (init_session ''/d/c'' rf1)) ''0001.gt.txt'')
      = Some ''same ''"
    by (simp add: world_c_def one_file_world_def item_c_def init_session_def)
  have e: "strip (lstrip_blank ''same'') = strip (lstrip_blank ''same '')" by code_simp
  have e': "strip ''same'' = strip ''same ''" by code_simp
  from clean_copy_raises_key_error [where s = "init_session ''/d/c'' rf1" and w = world_c
      and log = "[]" and filename = "Some ''0001.gt.txt''" and it = item_c and t = "''same''"
      and difftext = "''same{+ +}''" and ws = "[]" and p = "''0001.gt.txt''" and m = "''same ''"
      and h = "read_head (world_c [])" and fidx = 0 and nc = 0, OF r k(1,2) g k(3,4,5) f e]
    r e' run_clean_copy
  show ?thesis by simp
qed

section \<open>The invariant of the queue\<close>

lemma pop_idx_length:
  assumes "0 \<le> i" "pop_idx l i = Inr l1"
  shows "int (length l1) = (if i < int (length l) then int (length l) - 1 else int (length l))"
  using assms by (auto simp: pop_idx_at)

lemma slice_to_length:
  "0 \<le> k \<Longrightarrow> int (length (slice_to (k + 100) xs)) = min (k + 100) (int (length xs))"
  by (simp add: slice_to_def min_def) linarith

lemma slice_from_length:
  "0 \<le> k \<Longrightarrow> k \<le> int (length xs) \<Longrightarrow> k + int (length (slice_from k xs)) = int (length xs)"
  by (simp add: slice_from_def of_nat_diff nat_le_iff)

lemma refill_in_order:
  assumes "entry s"
  shows "in_order (refill v s) \<and> skipcc (refill v s) = skipcc s"
proof -
  from assms have k: "0 \<le> skip s" "skip s \<le> difflen s" "index_zero s"
    and q: "queue_len s \<le> difflen s \<or> queue_len s \<le> skip s"
    by (simp_all add: entry_def)
  let ?dl = "map Some (filter (contains ''.gt.txt'') (changed_paths v))"
  show ?thesis
  proof (cases "difflist s = [] \<or> int (length (difflist s)) \<le> skip s")
    case False
    then have "refill v s = s" by (simp add: refill_def)
    moreover from False q have "queue_len s \<le> difflen s" "skip s \<le> queue_len s"
      by (auto simp: queue_len_def)
    ultimately show ?thesis using k by (simp add: in_order_def)
  next
    case True
    show ?thesis
    proof (cases "int (length ?dl) \<le> skip s")
      case small: True
      with True have "refill v s = s\<lparr>difflist := replicate (nat (skip s)) None\<rparr>"
        by (simp add: refill_def Let_def)
      then show ?thesis using k by (simp add: in_order_def queue_len_def index_zero_def)
    next
      case big: False
      with True have r: "refill v s = s\<lparr>difflen := int (length ?dl),
          difflist := slice_to (skip s + 100) ?dl\<rparr>"
        by (simp add: refill_def Let_def)
      have "int (length (slice_to (skip s + 100) ?dl)) = min (skip s + 100) (int (length ?dl))"
        using k(1) by (rule slice_to_length)
      with r big k show ?thesis by (simp add: in_order_def queue_len_def index_zero_def)
    qed
  qed
qed

lemma present_loop_in_order:
  assumes "present_loop w h fs fidx nc s log = Inr (pgo, s1, log1)"
    and "0 \<le> skip s" "skip s + int (length fs) \<le> queue_len s" "queue_len s \<le> difflen s"
    and "0 \<le> fidx" "nc = fidx" "index_zero s"
  shows "in_order s1 \<and> (pgo \<noteq> None \<longrightarrow> skip s1 < queue_len s1)"
  using assms
proof (induction fs arbitrary: fidx nc s log)
  case Nil
  then show ?case by (simp add: in_order_def)
next
  case (Cons f fs)
  from Cons.prems(1) obtain out where out: "present_step w h fidx f nc s log = Inr out"
    by (auto split: sum.splits)
  have idx: "0 \<le> skip s + fidx" using Cons.prems(2,5) by simp
  have room: "skip s + int (length fs) + 1 \<le> queue_len s" using Cons.prems(3) by simp
  from out show ?case
  proof (cases rule: present_step_cases)
    case (dropped l)
    from pop_idx_length [OF idx dropped(1)] have "queue_len s - 1 \<le> int (length l)"
      "int (length l) \<le> queue_len s" by (auto simp: queue_len_def split: if_splits)
    with room Cons.prems have
      "0 \<le> skip (s\<lparr>difflist := l\<rparr>)"
      "skip (s\<lparr>difflist := l\<rparr>) + int (length fs) \<le> queue_len (s\<lparr>difflist := l\<rparr>)"
      "queue_len (s\<lparr>difflist := l\<rparr>) \<le> difflen (s\<lparr>difflist := l\<rparr>)"
      "0 \<le> fidx + 1" "nc + 1 = fidx + 1" "index_zero (s\<lparr>difflist := l\<rparr>)"
      by (simp_all add: queue_len_def index_zero_def)
    moreover from out dropped Cons.prems(1)
    have "present_loop w h fs (fidx + 1) (nc + 1) (s\<lparr>difflist := l\<rparr>) log = Inr (pgo, s1, log1)"
      by simp
    ultimately show ?thesis by (rule Cons.IH [rotated])
  next
    case (staged mt ws l)
    let ?s = "s\<lparr>modtype := Some mt, difflist := l\<rparr>"
    from pop_idx_length [OF idx staged(3)] have "queue_len s - 1 \<le> int (length l)"
      "int (length l) \<le> queue_len s" by (auto simp: queue_len_def split: if_splits)
    with room Cons.prems have
      "0 \<le> skip ?s" "skip ?s + int (length fs) \<le> queue_len ?s" "queue_len ?s \<le> difflen ?s"
      "0 \<le> fidx + 1" "nc + 1 = fidx + 1" "index_zero ?s"
      by (simp_all add: queue_len_def index_zero_def)
    moreover from out staged Cons.prems(1)
    have "present_loop w h fs (fidx + 1) (nc + 1) ?s (log @ ws @ [GitAdd (str_path f)])
        = Inr (pgo, s1, log1)"
      by simp
    ultimately show ?thesis by (rule Cons.IH [rotated])
  next
    case (passed mt ws)
    let ?s = "s\<lparr>modtype := Some mt, skip := skip s + 1\<rparr>"
    from room Cons.prems have
      "0 \<le> skip ?s" "skip ?s + int (length fs) \<le> queue_len ?s" "queue_len ?s \<le> difflen ?s"
      "0 \<le> fidx + 1" "nc + 1 = fidx + 1" "index_zero ?s"
      by (simp_all add: queue_len_def index_zero_def)
    moreover from out passed Cons.prems(1)
    have "present_loop w h fs (fidx + 1) (nc + 1) ?s (log @ ws) = Inr (pgo, s1, log1)"
      by simp
    ultimately show ?thesis by (rule Cons.IH [rotated])
  next
    case (shown mt ws xs pg mtext p)
    with out Cons.prems(1) have "s1 = s\<lparr>modtype := Some mt, modtext := Some mtext,
        fname := Some (joinpath (folder s) p), fpath := Some p, fileidx := Some (fidx - nc)\<rparr>"
      "pgo = Some pg"
      by simp_all
    with room Cons.prems show ?thesis
      by (simp add: in_order_def queue_len_def index_zero_def)
  qed
qed

lemma gtcheck_settled:
  assumes "gtcheck depth w s log = Inr (pg, s1, log1)" "entry s"
  shows "settled s1"
  using assms
proof (induction depth arbitrary: s log)
  case 0
  then show ?case by simp
next
  case (Suc depth)
  let ?dh = "read_head (w log)"
  let ?s0 = "refill (w log) s"
  from refill_in_order [OF Suc.prems(2), of "w log"] have o: "in_order ?s0" by simp
  from Suc.prems(1) obtain pgo s2 log2 where
    loop: "present_loop w ?dh (slice_from (skip ?s0) (difflist ?s0)) 0 0 ?s0 log = Inr (pgo, s2, log2)"
    by (auto simp: Let_def split: sum.splits)
  have len: "skip ?s0 + int (length (slice_from (skip ?s0) (difflist ?s0))) \<le> queue_len ?s0"
    using o slice_from_length [of "skip ?s0" "difflist ?s0"]
    by (simp add: in_order_def queue_len_def)
  from present_loop_in_order [OF loop _ len] o
  have o2: "in_order s2" by (simp add: in_order_def)
  show ?case
  proof (cases pgo)
    case (Some pg')
    with loop Suc.prems(1) o2 show ?thesis by (simp add: Let_def in_order_def settled_def)
  next
    case None
    show ?thesis
    proof (cases "head_diff ?dh \<noteq> []")
      case True
      with None loop Suc.prems(1) have "s1 = s2\<lparr>difflen := skip s2\<rparr>" by (auto simp: Let_def)
      with o2 show ?thesis by (simp add: in_order_def settled_def queue_len_def index_zero_def)
    next
      case dh: False
      show ?thesis
      proof (cases "difflist s2 = []")
        case True
        with dh None loop Suc.prems(1) have "s1 = s2" by (auto simp: Let_def)
        with o2 show ?thesis by (simp add: in_order_def settled_def)
      next
        case False
        with dh None loop Suc.prems(1) have g: "gtcheck depth w (s2\<lparr>skip := 0\<rparr>) log2 = Inr (pg, s1, log1)"
          by (simp add: Let_def)
        have "entry (s2\<lparr>skip := 0\<rparr>)"
          using o2 by (simp add: in_order_def entry_def queue_len_def index_zero_def)
        with g show ?thesis by (rule Suc.IH)
      qed
    qed
  qed
qed


lemma pop_idx_Nil: "pop_idx [] i = Inr l \<Longrightarrow> l = []"
  by (auto simp: pop_idx_def list_pop_def Let_def split: if_splits)

lemma edit_decision_shape:
  assumes "edit_decision w data s log = Inr (s2, log2)"
  shows "fileidx s2 = fileidx s \<and> skipcc s2 = skipcc s \<and> (\<exists>u. (u = 0 \<or> u = 1) \<and>
    ((skip s2 = skip s \<and> difflist s2 = [] \<and> difflen s2 = difflen s + u - 1)
   \<or> (skip s2 = skip s \<and> (difflen s2 = difflen s + u \<or> difflen s2 = difflen s + u - 1)
        \<and> (\<exists>fi. fileidx s = Some fi \<and> pop_idx (difflist s) (skip s + fi) = Inr (difflist s2))
        \<and> (difflen s2 = difflen s + u - 1 \<longrightarrow> form_selection data = ''add''))
   \<or> (skip s2 = skip s + 1 \<and> difflist s2 = difflist s \<and> difflen s2 = difflen s + u)))"
  using assms
proof (cases rule: edit_decision_unfold)
  case (1 fp stored s3 log3)
  define u where "u = (if truthy_path (form_undo data) then 1 else 0 :: int)"
  have u: "u = 0 \<or> u = 1" by (simp add: u_def)
  have s3: "fileidx s3 = fileidx s" "skipcc s3 = skipcc s" "skip s3 = skip s"
    "difflist s3 = difflist s" "difflen s3 = difflen s + u"
    by (simp_all add: 1(4) u_def)
  consider (commit) "form_selection data = ''commit''" | (stash) "form_selection data = ''stash''"
    | (add) "form_selection data = ''add''"
    | (other) "form_selection data \<noteq> ''commit''" "form_selection data \<noteq> ''stash''"
      "form_selection data \<noteq> ''add''" by blast
  then show ?thesis
  proof cases
    case commit
    with 1(5) have "fileidx s2 = fileidx s3 \<and> skipcc s2 = skipcc s3 \<and> skip s2 = skip s3
        \<and> difflist s2 = [] \<and> difflen s2 = difflen s3 - 1"
      by (auto simp: bind_Inr_iff Let_def split: if_splits dest!: pop_current_result pop_idx_Nil)
    with u s3 show ?thesis by auto
  next
    case stash
    with 1(5) have "fileidx s2 = fileidx s3 \<and> skipcc s2 = skipcc s3 \<and> skip s2 = skip s3
        \<and> difflen s2 = difflen s3
        \<and> (\<exists>fi. fileidx s3 = Some fi \<and> pop_idx (difflist s3) (skip s3 + fi) = Inr (difflist s2))"
      by (auto simp: bind_Inr_iff Let_def split: if_splits dest!: pop_current_result)
    with u stash s3 show ?thesis by auto
  next
    case add
    with 1(5) have "fileidx s2 = fileidx s3 \<and> skipcc s2 = skipcc s3 \<and> skip s2 = skip s3
        \<and> difflen s2 = difflen s3 - 1
        \<and> (\<exists>fi. fileidx s3 = Some fi \<and> pop_idx (difflist s3) (skip s3 + fi) = Inr (difflist s2))"
      by (auto simp: bind_Inr_iff Let_def split: if_splits dest!: pop_current_result)
    with u add s3 show ?thesis by auto
  next
    case other
    with 1(5) have "fileidx s2 = fileidx s3 \<and> skipcc s2 = skipcc s3 \<and> skip s2 = skip s3 + 1
        \<and> difflist s2 = difflist s3 \<and> difflen s2 = difflen s3"
      by auto
    with u s3 show ?thesis by auto
  qed
qed

lemma edit_decision_entry:
  assumes "settled s" "difflen s - skip s \<noteq> 0" "edit_decision w data s log = Inr (s2, log2)"
  shows "entry s2"
proof -
  from assms(1,2) have k: "0 \<le> skip s" "skip s \<le> queue_len s" "skip s < difflen s"
    "queue_len s \<le> difflen s" "index_zero s"
    by (auto simp: settled_def)
  from edit_decision_shape [OF assms(3)] obtain u where u: "u = 0 \<or> u = 1"
    and f: "fileidx s2 = fileidx s"
    and c: "(skip s2 = skip s \<and> difflist s2 = [] \<and> difflen s2 = difflen s + u - 1)
   \<or> (skip s2 = skip s \<and> (difflen s2 = difflen s + u \<or> difflen s2 = difflen s + u - 1)
        \<and> (\<exists>fi. fileidx s = Some fi \<and> pop_idx (difflist s) (skip s + fi) = Inr (difflist s2))
        \<and> (difflen s2 = difflen s + u - 1 \<longrightarrow> form_selection data = ''add''))
   \<or> (skip s2 = skip s + 1 \<and> difflist s2 = difflist s \<and> difflen s2 = difflen s + u)"
    by blast
  have z: "index_zero s2" using f k(5) by (simp add: index_zero_def)
  from c consider
      (cleared) "skip s2 = skip s" "difflist s2 = []" "difflen s2 = difflen s + u - 1"
    | (popped) fi where "skip s2 = skip s"
        "difflen s2 = difflen s + u \<or> difflen s2 = difflen s + u - 1"
        "fileidx s = Some fi" "pop_idx (difflist s) (skip s + fi) = Inr (difflist s2)"
    | (advanced) "skip s2 = skip s + 1" "difflist s2 = difflist s" "difflen s2 = difflen s + u"
    by blast
  then show ?thesis
  proof cases
    case cleared
    with k u z show ?thesis by (auto simp: entry_def queue_len_def)
  next
    case popped
    with k(5) have "fi = 0" by (simp add: index_zero_def)
    with popped(4) k(1) have "queue_len s2 = (if skip s < queue_len s then queue_len s - 1 else queue_len s)"
      using pop_idx_length [of "skip s" "difflist s" "difflist s2"] by (simp add: queue_len_def)
    with popped(1,2) k u z show ?thesis by (auto simp: entry_def split: if_splits)
  next
    case advanced
    with k u z show ?thesis by (auto simp: entry_def queue_len_def)
  qed
qed

lemma gtcheckedit_settled:
  assumes "gtcheckedit depth w data s log = Inr (pg, s1, log1)" "settled s"
  shows "settled s1"
proof (cases "difflen s - skip s = 0")
  case True
  with assms(1) obtain l where g: "gtcheck depth w (s\<lparr>difflist := []\<rparr>) l = Inr (pg, s1, log1)"
    by (auto simp: gtcheckedit_def bind_Inr_iff)
  have "entry (s\<lparr>difflist := []\<rparr>)"
    using assms(2) by (simp add: settled_def entry_def queue_len_def index_zero_def)
  with g show ?thesis by (rule gtcheck_settled)
next
  case False
  with assms(1) obtain s2 log2 where e: "edit_decision w data s log = Inr (s2, log2)"
    and g: "gtcheck depth w s2 log2 = Inr (pg, s1, log1)"
    by (auto simp: gtcheckedit_def bind_Inr_iff)
  from edit_decision_entry [OF assms(2) False e] g show ?thesis by (rule gtcheck_settled [rotated])
qed

lemma review_states_settled: "review_states s \<Longrightarrow> settled s"
proof (induction rule: review_states.induct)
  case opened
  show ?case
    by (rule gtcheck_settled [OF opened])
       (simp add: entry_def init_session_def queue_len_def index_zero_def)
next
  case decided
  then show ?case by (auto intro: gtcheckedit_settled)
qed


lemma refill_cursor:
  assumes "0 \<le> skip s"
  shows "skip (refill v s) \<le> int (length (difflist (refill v s)))"
proof -
  let ?dl = "map Some (filter (contains ''.gt.txt'') (changed_paths v))"
  show ?thesis
  proof (cases "difflist s = [] \<or> int (length (difflist s)) \<le> skip s")
    case False
    then show ?thesis by (simp add: refill_def)
  next
    case True
    show ?thesis
    proof (cases "int (length ?dl) \<le> skip s")
      case small: True
      with True have "refill v s = s\<lparr>difflist := replicate (nat (skip s)) None\<rparr>"
        by (simp add: refill_def Let_def)
      then show ?thesis using assms by simp
    next
      case big: False
      with True have r: "refill v s = s\<lparr>difflen := int (length ?dl),
          difflist := slice_to (skip s + 100) ?dl\<rparr>"
        by (simp add: refill_def Let_def)
      have "int (length (slice_to (skip s + 100) ?dl)) = min (skip s + 100) (int (length ?dl))"
        using assms by (intro slice_to_length) simp
      with r big show ?thesis by simp
    qed
  qed
qed

text \<open>
  C2: in every session of a review, after any sequence of decisions, the cursor does
  not exceed the length of the queue and the remaining count \<^verbatim>\<open>difflen - skip\<close> is not
  negative; and when the cursor is advanced, the refill at the start of \<^verbatim>\<open>gtcheck\<close>
  rebuilds or resets the queue so that the cursor does not exceed it.
\<close>

theorem queue_invariant:
  assumes "review_states s"
  shows "skip s \<le> int (length (difflist s)) \<and> 0 \<le> difflen s - skip s
       \<and> skip (refill v (s\<lparr>skip := skip s + 1\<rparr>))
            \<le> int (length (difflist (refill v (s\<lparr>skip := skip s + 1\<rparr>))))"
proof -
  from review_states_settled [OF assms] have t: "settled s" .
  then have a: "skip s \<le> int (length (difflist s))" "0 \<le> difflen s - skip s" "0 \<le> skip s"
    by (simp_all add: settled_def queue_len_def)
  from a(3) have "0 \<le> skip (s\<lparr>skip := skip s + 1\<rparr>)" by simp
  from refill_cursor [OF this, of v] a show ?thesis by simp
qed

theorem queue_invariant_witness:
  "review_states session_c \<and> skip session_c = 1 \<and> int (length (difflist session_c)) = 2
   \<and> difflen session_c - skip session_c = 1
   \<and> skip session_c \<le> int (length (difflist session_c))
   \<and> 0 \<le> difflen session_c - skip session_c"
proof -
  have "(init_session ''/d/r'' rf0)\<lparr>skipcc := None, addcc := None\<rparr> = init_session ''/d/r'' rf0"
    by (simp add: init_session_def)
  with run_open have "gtcheck 1 world0 ((init_session ''/d/r'' rf0)\<lparr>skipcc := None, addcc := None\<rparr>) []
      = Inr (page_a, session_a, log_a)"
    by simp
  then have a: "review_states session_a" by (rule review_states.opened)
  from session_after_Some [OF run_add] obtain pg where
    "gtcheckedit 1 world0 form_add session_a log_a = Inr (pg, session_b, log_add)" ..
  with a have b: "review_states session_b" by (rule review_states.decided)
  from session_after_Some [OF run_undo] obtain pg' where
    "gtcheckedit 1 world0 undo_form session_b log_add = Inr (pg', session_c, log_c)" ..
  with b have r: "review_states session_c" by (rule review_states.decided)
  have v: "skip session_c = 1" "int (length (difflist session_c)) = 2"
    "difflen session_c - skip session_c = 1"
    by (simp_all add: session_c_def session_b_def session_a_def init_session_def)
  from queue_invariant [OF r, of "world0 []"] r v show ?thesis by simp
qed

end
